theory Spec2Isabelle
  imports Main
begin

section \<open>Values, store and options of the pretty printer\<close>

text \<open>
  The printer of \<^verbatim>\<open>src/index.ts\<close> walks a graph of JavaScript values. Arrays and
  plain objects have reference identity, so they live in a store and a value refers to
  them by address; every other kind of value is immediate.

  \<^item> A number is modelled by an integer and printed in decimal, as \<^verbatim>\<open>String\<close> prints the
    integer-valued numbers of magnitude below \<^verbatim>\<open>1e21\<close>; larger numbers (printed with an
    exponent), fractions, \<^verbatim>\<open>NaN\<close> and the infinities are left out.
  \<^item> A function, a regular expression and a symbol carry the text that \<^verbatim>\<open>String\<close>
    gives for them (a symbol its description and an identity).
  \<^item> A date carries the text of \<^verbatim>\<open>toISOString()\<close>, or nothing when its time value is
    invalid: \<^verbatim>\<open>toISOString()\<close> then throws a \<^verbatim>\<open>RangeError\<close>.
  \<^item> A character is a code unit of the string, \<open>length\<close> its \<^verbatim>\<open>.length\<close>.
  \<^item> An array is dense; an object is the list of its own data properties in the order
    in which the host enumerates own keys, each with its \<^verbatim>\<open>enumerable\<close> flag. Accessor
    properties, proxies and inherited properties are left out.
\<close>

type_synonym addr = nat

datatype symbol = Symbol nat string

datatype key = KStr string | KSym symbol

datatype val =
    VNull
  | VUndefined
  | VNum int
  | VBool bool
  | VFunc string
  | VSym symbol
  | VRegexp string
  | VDate "string option"
  | VRef addr
  | VStr string

type_synonym property = "key \<times> bool \<times> val"

datatype cell = Arr "val list" | Obj "property list"

type_synonym store = "cell list"

definition lookup :: "store \<Rightarrow> addr \<Rightarrow> cell option" where
  "lookup h a = (if a < length h then Some (h ! a) else None)"

text \<open>
  The second argument of the hooks: a key of an object, or an index of an array.
\<close>

datatype property_name = PropKey key | PropIdx nat

text \<open>
  \<^verbatim>\<open>combinedOptions\<close>: the options after the defaults have been merged in. The hooks
  are functions of the composite's reference, the property and the text: they return a
  value, and neither throw, call the printer nor touch \<^verbatim>\<open>seen\<close>. Hooks that do are outside
  the model. The value graph does not change while it is printed.
\<close>

record options =
  indent :: string
  singleQuotes :: bool
  filter_opt :: "(addr \<Rightarrow> property_name \<Rightarrow> bool) option"
  transform_opt :: "(addr \<Rightarrow> property_name \<Rightarrow> string \<Rightarrow> string) option"
  inlineCharacterLimit :: "int option"

definition tab :: char where "tab = CHR 0x09"
definition LF :: char where "LF = CHR 0x0A"
definition CR :: char where "CR = CHR 0x0D"
definition dquote :: char where "dquote = CHR 0x22"
definition squote :: char where "squote = CHR 0x27"
definition bslash :: char where "bslash = CHR 0x5C"
definition dollar :: char where "dollar = CHR 0x24"
definition backtick :: char where "backtick = CHR 0x60"

definition defaultOptions :: options where
  "defaultOptions =
     \<lparr>indent = [tab], singleQuotes = True, filter_opt = None, transform_opt = None,
      inlineCharacterLimit = None\<rparr>"

text \<open>
  What a call gives back: the text, an exception, or nothing because the recursion went
  deeper than the depth the call was given. \<open>RangeError\<close> is the exception of
  \<^verbatim>\<open>toISOString()\<close>. \<open>DanglingReference\<close> is no exception of the program: it is what the
  model gives for a reference to no cell of the store, which a value graph never holds.
\<close>

datatype error = RangeError | DanglingReference

datatype 'a res = Ok 'a | Throw error | OutOfFuel

section \<open>Text of the immediate values\<close>

fun string_of_nat :: "nat \<Rightarrow> string" where
  "string_of_nat n =
     (if n < 10 then [char_of (48 + n)]
      else string_of_nat (n div 10) @ [char_of (48 + n mod 10)])"

declare string_of_nat.simps [simp del]

definition string_of_int :: "int \<Rightarrow> string" where
  "string_of_int i = (if i < 0 then CHR ''-'' # string_of_nat (nat (- i)) else string_of_nat (nat i))"

definition String_symbol :: "symbol \<Rightarrow> string" where
  "String_symbol s = (case s of Symbol _ d \<Rightarrow> ''Symbol('' @ d @ '')'')"

section \<open>Global replacement of literal patterns\<close>

text \<open>
  Every regular expression that the printer builds for \<^verbatim>\<open>String.prototype.replace\<close>
  is global and is a literal or an alternation of literals, none of them empty. A
  match at a position is the first alternative that is a prefix of the rest of the
  text; the scan goes on behind the match. The replacement text is a template in
  which \<^verbatim>\<open>$$\<close>, \<^verbatim>\<open>$&\<close>, \<^verbatim>\<open>$`\<close> and \<^verbatim>\<open>$'\<close> stand for a dollar sign, the match, the text
  before it and the text behind it (there are no capture groups).
\<close>

fun getSubstitution :: "string \<Rightarrow> string \<Rightarrow> string \<Rightarrow> string \<Rightarrow> string" where
  "getSubstitution m b a [] = []"
| "getSubstitution m b a [c] = [c]"
| "getSubstitution m b a (c # d # t) =
     (if c = dollar \<and> d = dollar then dollar # getSubstitution m b a t
      else if c = dollar \<and> d = CHR ''&'' then m @ getSubstitution m b a t
      else if c = dollar \<and> d = backtick then b @ getSubstitution m b a t
      else if c = dollar \<and> d = squote then a @ getSubstitution m b a t
      else c # getSubstitution m b a (d # t))"

fun starts_with :: "string \<Rightarrow> string \<Rightarrow> bool" where
  "starts_with [] s = True"
| "starts_with (p # ps) [] = False"
| "starts_with (p # ps) (c # cs) = (p = c \<and> starts_with ps cs)"

fun match_at :: "string list \<Rightarrow> string \<Rightarrow> string option" where
  "match_at [] s = None"
| "match_at (p # ps) s = (if p \<noteq> [] \<and> starts_with p s then Some p else match_at ps s)"

function replace_scan :: "string list \<Rightarrow> string \<Rightarrow> string \<Rightarrow> string \<Rightarrow> string" where
  "replace_scan alts tmpl pre [] = []"
| "replace_scan alts tmpl pre (c # cs) =
     (case match_at alts (c # cs) of
        Some m \<Rightarrow>
          getSubstitution m pre (drop (length m) (c # cs)) tmpl
            @ replace_scan alts tmpl (pre @ m) (drop (length m) (c # cs))
      | None \<Rightarrow> c # replace_scan alts tmpl (pre @ [c]) cs)"
  by pat_completeness auto

termination replace_scan
proof (relation "measure (\<lambda>(alts, tmpl, pre, s). length s)")
  show "wf (measure (\<lambda>(alts, tmpl, pre, s). length s))"
    by simp
next
  fix alts :: "string list" and tmpl pre :: string and c :: char and cs m :: string
  assume "match_at alts (c # cs) = Some m"
  then have "m \<noteq> []"
    by (induction alts) (auto split: if_splits)
  then have "0 < length m"
    by simp
  then show "((alts, tmpl, pre @ m, drop (length m) (c # cs)), (alts, tmpl, pre, c # cs))
      \<in> measure (\<lambda>(alts, tmpl, pre, s). length s)"
    by simp
next
  fix alts :: "string list" and tmpl pre :: string and c :: char and cs :: string
  show "((alts, tmpl, pre @ [c], cs), (alts, tmpl, pre, c # cs))
      \<in> measure (\<lambda>(alts, tmpl, pre, s). length s)"
    by simp
qed

definition replace :: "string list \<Rightarrow> string \<Rightarrow> string \<Rightarrow> string" where
  "replace alts tmpl s = replace_scan alts tmpl [] s"

section \<open>Placeholder tokens and the compaction pass\<close>

record tokens =
  newLine :: string
  newLineOrSpace :: string
  padTok :: string
  indentTok :: string

definition tokens_of :: "options \<Rightarrow> string \<Rightarrow> tokens" where
  "tokens_of opts pad =
     (case inlineCharacterLimit opts of
        None \<Rightarrow>
          \<lparr>newLine = [LF], newLineOrSpace = [LF], padTok = pad, indentTok = pad @ indent opts\<rparr>
      | Some _ \<Rightarrow>
          \<lparr>newLine = ''@@__PRETTY_PRINT_NEW_LINE__@@'',
           newLineOrSpace = ''@@__PRETTY_PRINT_NEW_LINE_OR_SPACE__@@'',
           padTok = ''@@__PRETTY_PRINT_PAD__@@'',
           indentTok = ''@@__PRETTY_PRINT_INDENT__@@''\<rparr>)"

definition oneLined :: "tokens \<Rightarrow> string \<Rightarrow> string" where
  "oneLined tk s =
     replace [padTok tk, indentTok tk] []
       (replace [newLineOrSpace tk] '' ''
         (replace [newLine tk] [] s))"

definition multiLined :: "options \<Rightarrow> tokens \<Rightarrow> string \<Rightarrow> string \<Rightarrow> string" where
  "multiLined opts tk pad s =
     replace [indentTok tk] (pad @ indent opts)
       (replace [padTok tk] pad
         (replace [newLine tk, newLineOrSpace tk] [LF] s))"

definition expandWhiteSpace :: "options \<Rightarrow> tokens \<Rightarrow> string \<Rightarrow> string \<Rightarrow> string" where
  "expandWhiteSpace opts tk pad s =
     (case inlineCharacterLimit opts of
        None \<Rightarrow> s
      | Some limit \<Rightarrow>
          if int (length (oneLined tk s)) \<le> limit then oneLined tk s
          else multiLined opts tk pad s)"

section \<open>The text fallback\<close>

definition escape_line_terminators :: "string \<Rightarrow> string" where
  "escape_line_terminators s =
     concat (map (\<lambda>x. if x = CR \<or> x = LF
                       then (if x = LF then [bslash, CHR ''n''] else [bslash, CHR ''r''])
                       else [x]) s)"

definition quote_text :: "options \<Rightarrow> string \<Rightarrow> string" where
  "quote_text opts s =
     (let input = escape_line_terminators s in
      if \<not> singleQuotes opts
      then [dquote] @ replace [[dquote]] [bslash, dquote] input @ [dquote]
      else [squote] @ replace [[bslash, squote], [squote]] [bslash, squote] input @ [squote])"

section \<open>Keys of an object\<close>

definition Object_keys :: "property list \<Rightarrow> key list" where
  "Object_keys props = [KStr s. (KStr s, True, v) \<leftarrow> props]"

definition getOwnPropertySymbols :: "property list \<Rightarrow> key list" where
  "getOwnPropertySymbols props = [KSym s. (KSym s, e, v) \<leftarrow> props]"

definition propertyIsEnumerable :: "property list \<Rightarrow> key \<Rightarrow> bool" where
  "propertyIsEnumerable props k = (case map_of props k of Some (e, v) \<Rightarrow> e | None \<Rightarrow> False)"

definition getOwnEnumPropSymbols :: "property list \<Rightarrow> key list" where
  "getOwnEnumPropSymbols props =
     filter (\<lambda>keySymbol. propertyIsEnumerable props keySymbol) (getOwnPropertySymbols props)"

definition get_property :: "property list \<Rightarrow> key \<Rightarrow> val" where
  "get_property props k = (case map_of props k of Some (e, v) \<Rightarrow> v | None \<Rightarrow> VUndefined)"

definition objKeys :: "options \<Rightarrow> addr \<Rightarrow> property list \<Rightarrow> key list" where
  "objKeys opts a props =
     (let keys = Object_keys props @ getOwnEnumPropSymbols props in
      case filter_opt opts of
        None \<Rightarrow> keys
      | Some f \<Rightarrow> filter (\<lambda>el. f a (PropKey el)) keys)"

text \<open>The test of \<^verbatim>\<open>/^[a-z$_][a-z$_0-9]*$/i\<close> on a string key.\<close>

definition in_range :: "char \<Rightarrow> char \<Rightarrow> char \<Rightarrow> bool" where
  "in_range lo hi c = ((of_char lo :: nat) \<le> of_char c \<and> (of_char c :: nat) \<le> of_char hi)"

definition ident_start :: "char \<Rightarrow> bool" where
  "ident_start c =
     (in_range (CHR ''a'') (CHR ''z'') c \<or> in_range (CHR ''A'') (CHR ''Z'') c
      \<or> c = dollar \<or> c = CHR ''_'')"

definition ident_part :: "char \<Rightarrow> bool" where
  "ident_part c = (ident_start c \<or> in_range (CHR ''0'') (CHR ''9'') c)"

definition isClassic :: "string \<Rightarrow> bool" where
  "isClassic s = (case s of [] \<Rightarrow> False | c # cs \<Rightarrow> ident_start c \<and> list_all ident_part cs)"

section \<open>The printer\<close>

text \<open>
  \<^verbatim>\<open>seen\<close> is a variable of the module: every call reads and writes it, so the model
  takes its content and returns it with the result. Only arrays and objects are pushed,
  so \<^verbatim>\<open>seen.indexOf(input)\<close> finds nothing for a value that is not a reference.
\<close>

definition circular :: string where
  "circular = [dquote] @ ''[Circular]'' @ [dquote]"

definition seen_has :: "addr list \<Rightarrow> val \<Rightarrow> bool" where
  "seen_has seen input = (case input of VRef a \<Rightarrow> a \<in> set seen | _ \<Rightarrow> False)"

definition apply_transform :: "options \<Rightarrow> addr \<Rightarrow> property_name \<Rightarrow> string \<Rightarrow> string" where
  "apply_transform opts a p v = (case transform_opt opts of None \<Rightarrow> v | Some t \<Rightarrow> t a p v)"

definition eol :: "tokens \<Rightarrow> nat \<Rightarrow> nat \<Rightarrow> string" where
  "eol tk len i = (if len - 1 = i then newLine tk else '','' @ newLineOrSpace tk)"

type_synonym printer = "addr list \<Rightarrow> val \<Rightarrow> string \<Rightarrow> string res \<times> addr list"

text \<open>
  The callback of \<^verbatim>\<open>input.map\<close> in the array branch, run over the elements from index
  \<open>i\<close> on. An exception in a call ends the loop and leaves \<^verbatim>\<open>seen\<close> as it is then.
\<close>

fun map_elements ::
  "printer \<Rightarrow> options \<Rightarrow> tokens \<Rightarrow> addr \<Rightarrow> string \<Rightarrow> nat \<Rightarrow> nat \<Rightarrow> val list \<Rightarrow> addr list
    \<Rightarrow> string list res \<times> addr list" where
  "map_elements self opts tk a pad len i [] seen = (Ok [], seen)"
| "map_elements self opts tk a pad len i (el # els) seen =
     (case self seen el (pad @ indent opts) of
        (Ok v, seen1) \<Rightarrow>
          (case map_elements self opts tk a pad len (Suc i) els seen1 of
             (Ok parts, seen2) \<Rightarrow>
               (Ok ((indentTok tk @ apply_transform opts a (PropIdx i) v @ eol tk len i) # parts),
                seen2)
           | (Throw e, seen2) \<Rightarrow> (Throw e, seen2)
           | (OutOfFuel, seen2) \<Rightarrow> (OutOfFuel, seen2))
      | (Throw e, seen1) \<Rightarrow> (Throw e, seen1)
      | (OutOfFuel, seen1) \<Rightarrow> (OutOfFuel, seen1))"

text \<open>
  \<^verbatim>\<open>key = isSymbol || isClassic ? el : prettyPrint(el, combinedOptions)\<close>, then
  \<^verbatim>\<open>String(key)\<close>.
\<close>

definition print_key :: "printer \<Rightarrow> addr list \<Rightarrow> key \<Rightarrow> string res \<times> addr list" where
  "print_key self seen el =
     (case el of
        KSym s \<Rightarrow> (Ok (String_symbol s), seen)
      | KStr s \<Rightarrow> if isClassic s then (Ok s, seen) else self seen (VStr s) [])"

text \<open>The callback of \<^verbatim>\<open>objKeys.map\<close> in the object branch.\<close>

fun map_keys ::
  "printer \<Rightarrow> options \<Rightarrow> tokens \<Rightarrow> addr \<Rightarrow> property list \<Rightarrow> string \<Rightarrow> nat \<Rightarrow> nat \<Rightarrow> key list
    \<Rightarrow> addr list \<Rightarrow> string list res \<times> addr list" where
  "map_keys self opts tk a props pad len i [] seen = (Ok [], seen)"
| "map_keys self opts tk a props pad len i (el # els) seen =
     (case print_key self seen el of
        (Ok k, seen1) \<Rightarrow>
          (case self seen1 (get_property props el) (pad @ indent opts) of
             (Ok v, seen2) \<Rightarrow>
               (case map_keys self opts tk a props pad len (Suc i) els seen2 of
                  (Ok parts, seen3) \<Rightarrow>
                    (Ok ((indentTok tk @ k @ '': '' @ apply_transform opts a (PropKey el) v
                           @ eol tk len i) # parts),
                     seen3)
                | (Throw e, seen3) \<Rightarrow> (Throw e, seen3)
                | (OutOfFuel, seen3) \<Rightarrow> (OutOfFuel, seen3))
           | (Throw e, seen2) \<Rightarrow> (Throw e, seen2)
           | (OutOfFuel, seen2) \<Rightarrow> (OutOfFuel, seen2))
      | (Throw e, seen1) \<Rightarrow> (Throw e, seen1)
      | (OutOfFuel, seen1) \<Rightarrow> (OutOfFuel, seen1))"

text \<open>
  The body of \<^verbatim>\<open>prettyPrint\<close>, with \<open>self\<close> for its recursive calls (they all pass
  \<^verbatim>\<open>combinedOptions\<close> on). The cycle check comes first; the cases after it exclude one
  another. \<^verbatim>\<open>seen.push(input)\<close> appends, \<^verbatim>\<open>seen.pop()\<close> drops the last entry.
\<close>

definition prettyPrint_body ::
  "printer \<Rightarrow> store \<Rightarrow> options \<Rightarrow> addr list \<Rightarrow> val \<Rightarrow> string \<Rightarrow> string res \<times> addr list" where
  "prettyPrint_body self h opts seen input pad =
     (let tk = tokens_of opts pad in
      if seen_has seen input then (Ok circular, seen)
      else case input of
        VNull \<Rightarrow> (Ok ''null'', seen)
      | VUndefined \<Rightarrow> (Ok ''undefined'', seen)
      | VNum i \<Rightarrow> (Ok (string_of_int i), seen)
      | VBool b \<Rightarrow> (Ok (if b then ''true'' else ''false''), seen)
      | VFunc src \<Rightarrow> (Ok src, seen)
      | VSym s \<Rightarrow> (Ok (String_symbol s), seen)
      | VRegexp src \<Rightarrow> (Ok src, seen)
      | VDate d \<Rightarrow>
          (case d of
             None \<Rightarrow> (Throw RangeError, seen)
           | Some t \<Rightarrow> (Ok (''new Date('' @ [squote] @ t @ [squote] @ '')''), seen))
      | VRef a \<Rightarrow>
          (case lookup h a of
             None \<Rightarrow> (Throw DanglingReference, seen)
           | Some (Arr els) \<Rightarrow>
               if length els = 0 then (Ok ''[]'', seen)
               else
                 (case map_elements self opts tk a pad (length els) 0 els (seen @ [a]) of
                    (Ok parts, seen1) \<Rightarrow>
                      (Ok (expandWhiteSpace opts tk pad
                             (''['' @ newLine tk @ concat parts @ padTok tk @ '']'')),
                       butlast seen1)
                  | (Throw e, seen1) \<Rightarrow> (Throw e, seen1)
                  | (OutOfFuel, seen1) \<Rightarrow> (OutOfFuel, seen1))
           | Some (Obj props) \<Rightarrow>
               (let keys = objKeys opts a props in
                if length keys = 0 then (Ok ''{}'', seen)
                else
                  (case map_keys self opts tk a props pad (length keys) 0 keys (seen @ [a]) of
                     (Ok parts, seen1) \<Rightarrow>
                       (Ok (expandWhiteSpace opts tk pad
                              (''{'' @ newLine tk @ concat parts @ padTok tk @ ''}'')),
                        butlast seen1)
                   | (Throw e, seen1) \<Rightarrow> (Throw e, seen1)
                   | (OutOfFuel, seen1) \<Rightarrow> (OutOfFuel, seen1))))
      | VStr s \<Rightarrow> (Ok (quote_text opts s), seen))"

text \<open>
  The first argument bounds the depth of the recursion, as the call stack does.
\<close>

fun prettyPrint ::
  "nat \<Rightarrow> store \<Rightarrow> options \<Rightarrow> addr list \<Rightarrow> val \<Rightarrow> string \<Rightarrow> string res \<times> addr list" where
  "prettyPrint 0 h opts seen input pad = (OutOfFuel, seen)"
| "prettyPrint (Suc n) h opts seen input pad =
     prettyPrint_body (prettyPrint n h opts) h opts seen input pad"

section \<open>The renderer of the specification, scoped to the ancestors\<close>









section \<open>The key list of the specification\<close>

text \<open>
  The specification's key list: the own enumerable properties named by a string, in
  their enumeration order, followed by the own enumerable properties named by a symbol,
  in theirs. \<open>key_text\<close> is the text that stands for a key in the output.
\<close>

definition is_string_key :: "key \<Rightarrow> bool" where
  "is_string_key k = (case k of KStr s \<Rightarrow> True | KSym s \<Rightarrow> False)"

definition spec_keys :: "property list \<Rightarrow> key list" where
  "spec_keys props =
     map fst (filter (\<lambda>p. is_string_key (fst p) \<and> fst (snd p)) props)
       @ map fst (filter (\<lambda>p. \<not> is_string_key (fst p) \<and> fst (snd p)) props)"

definition key_text :: "options \<Rightarrow> key \<Rightarrow> string" where
  "key_text opts k =
     (case k of
        KSym s \<Rightarrow> String_symbol s
      | KStr s \<Rightarrow> if isClassic s then s else quote_text opts s)"

section \<open>Reading a string literal\<close>

text \<open>
  The meaning of a quoted string literal of the language, for the round trip of the
  quoting policy: after the opening quote every character stands for itself, except
  that a backslash starts an escape (\<^verbatim>\<open>\n\<close>, \<^verbatim>\<open>\r\<close>, \<^verbatim>\<open>\t\<close>, \<^verbatim>\<open>\b\<close>, \<^verbatim>\<open>\f\<close>, \<^verbatim>\<open>\v\<close>
  for the control characters, a backslash before a line feed for nothing, and a
  backslash before any other character for that character), that a raw line
  terminator is an error, and that the quote ends the literal and must be its last
  character. The hexadecimal, unicode and octal escapes are outside this reader: it
  gives no text for them.
\<close>

definition escape_value :: "char \<Rightarrow> char" where
  "escape_value d =
     (if d = CHR ''n'' then LF
      else if d = CHR ''r'' then CR
      else if d = CHR ''t'' then tab
      else if d = CHR ''b'' then CHR 0x08
      else if d = CHR ''f'' then CHR 0x0C
      else if d = CHR ''v'' then CHR 0x0B
      else d)"

definition numeric_escape :: "char \<Rightarrow> bool" where
  "numeric_escape d = (d = CHR ''x'' \<or> d = CHR ''u'' \<or> in_range (CHR ''0'') (CHR ''9'') d)"

fun unescape :: "char \<Rightarrow> string \<Rightarrow> string option" where
  "unescape q [] = None"
| "unescape q (c # cs) =
     (if c = q then (if cs = [] then Some [] else None)
      else if c = LF \<or> c = CR then None
      else if c = bslash then
        (case cs of
           [] \<Rightarrow> None
         | d # t \<Rightarrow>
             if d = LF then unescape q t
             else if numeric_escape d then None
             else map_option ((#) (escape_value d)) (unescape q t))
      else map_option ((#) c) (unescape q cs))"

definition read_literal :: "char \<Rightarrow> string \<Rightarrow> string option" where
  "read_literal q text = (case text of [] \<Rightarrow> None | c # cs \<Rightarrow> if c = q then unescape q cs else None)"

definition quote_of :: "options \<Rightarrow> char" where
  "quote_of opts = (if singleQuotes opts then squote else dquote)"

section \<open>Texts built of characters and placeholders\<close>














section \<open>Predicates of the statements\<close>

text \<open>
  A value is safe in a store when it is not a date with an invalid time value and, if it
  is a reference, refers to a cell of the store; a store is safe when all values in its
  cells are.
\<close>

definition safe_val :: "store \<Rightarrow> val \<Rightarrow> bool" where
  "safe_val h v = (case v of VDate None \<Rightarrow> False | VRef a \<Rightarrow> a < length h | _ \<Rightarrow> True)"

definition safe_cell :: "store \<Rightarrow> cell \<Rightarrow> bool" where
  "safe_cell h c =
     (case c of
        Arr els \<Rightarrow> list_all (safe_val h) els
      | Obj props \<Rightarrow> list_all (\<lambda>(k, e, v). safe_val h v) props)"

definition safe_store :: "store \<Rightarrow> bool" where
  "safe_store h = list_all (safe_cell h) h"

text \<open>The number of cells of the store that are not on the visited list.\<close>

definition unvisited :: "store \<Rightarrow> addr list \<Rightarrow> nat" where
  "unvisited h seen = card ({..<length h} - set seen)"

text \<open>
  A composite has members when it is a non-empty array or an object with a retained
  key.
\<close>

definition has_members :: "store \<Rightarrow> options \<Rightarrow> addr \<Rightarrow> bool" where
  "has_members h opts a =
     (case lookup h a of
        Some (Arr els) \<Rightarrow> els \<noteq> []
      | Some (Obj props) \<Rightarrow> objKeys opts a props \<noteq> []
      | None \<Rightarrow> False)"

text \<open>
  Properties of the function that stands for the recursive calls: it leaves the visited
  list as it was when it returns a text; it returns a text on every safe value; it keeps
  a property of the visited list; its text or failure is that of a renderer.
\<close>

definition restores :: "printer \<Rightarrow> bool" where
  "restores self =
     (\<forall>seen v pad s seen'. self seen v pad = (Ok s, seen') \<longrightarrow> seen' = seen)"

definition answers :: "store \<Rightarrow> printer \<Rightarrow> addr list \<Rightarrow> bool" where
  "answers h self seen = (\<forall>v pad. safe_val h v \<longrightarrow> (\<exists>s. self seen v pad = (Ok s, seen)))"

definition keeps :: "(addr list \<Rightarrow> bool) \<Rightarrow> printer \<Rightarrow> bool" where
  "keeps P self = (\<forall>seen v pad. P seen \<longrightarrow> P (snd (self seen v pad)))"


section \<open>Stores used as examples\<close>




text \<open>\<^verbatim>\<open>{d: new Date(NaN)}\<close> at address 0.\<close>

definition store_invalid_date :: store where
  "store_invalid_date = [Obj [(KStr ''d'', True, VDate None)]]"

text \<open>\<^verbatim>\<open>a = []; b = [a]; a[0] = a\<close>, with \<^verbatim>\<open>b\<close> at address 0 and \<^verbatim>\<open>a\<close> at address 1.\<close>

definition store_cyclic :: store where
  "store_cyclic = [Arr [VRef 1], Arr [VRef 1]]"

text \<open>\<^verbatim>\<open>[1, 2]\<close>, and a filter hook that rejects everything it is asked about.\<close>

definition store_numbers :: store where
  "store_numbers = [Arr [VNum 1, VNum 2]]"

definition reject_all :: "addr \<Rightarrow> property_name \<Rightarrow> bool" where
  "reject_all a p = False"

text \<open>\<^verbatim>\<open>{id: 8, name: 'Jane'}\<close> and its two texts.\<close>

definition store_jane :: store where
  "store_jane = [Obj [(KStr ''id'', True, VNum 8), (KStr ''name'', True, VStr ''Jane'')]]"

definition jane_one_line :: string where
  "jane_one_line = ''{id: 8, name: '' @ [squote] @ ''Jane'' @ [squote] @ ''}''"

definition jane_multi_line :: string where
  "jane_multi_line =
     ''{'' @ [LF, tab] @ ''id: 8,'' @ [LF, tab] @ ''name: '' @ [squote] @ ''Jane'' @ [squote] @ [LF] @ ''}''"

text \<open>\<^verbatim>\<open>{'foo-foo': 1, $el: 2}\<close>.\<close>

definition store_keys :: store where
  "store_keys = [Obj [(KStr ''foo-foo'', True, VNum 1), (KStr ''$el'', True, VNum 2)]]"

text \<open>\<^verbatim>\<open>e = []; o = {}; [e, o, e]\<close>, with the outer array at address 0.\<close>

definition store_empties :: store where
  "store_empties = [Arr [VRef 1, VRef 2, VRef 1], Arr [], Obj []]"

text \<open>
  An object with an enumerable symbol key, a non-enumerable symbol key and a string
  key, at address 0.
\<close>

definition store_symbols :: store where
  "store_symbols =
     [Obj [(KSym (Symbol 0 ''for enumerable key''), True, VUndefined),
           (KSym (Symbol 1 ''for non-enumerable key''), False, VUndefined),
           (KStr ''name'', True, VNum 1)]]"



section \<open>The visited list is restored when a call returns\<close>

lemma restoresD: "restores self \<Longrightarrow> self seen v pad = (Ok s, seen') \<Longrightarrow> seen' = seen"
  unfolding restores_def by blast

lemma map_elements_restores:
  assumes "restores self"
  shows "map_elements self opts tk a pad len i els seen = (Ok parts, seen') \<Longrightarrow> seen' = seen"
proof (induction els arbitrary: i seen parts seen')
  case Nil
  then show ?case by simp
next
  case (Cons el els)
  from Cons.prems obtain v seen1 where
    1: "self seen el (pad @ indent opts) = (Ok v, seen1)"
    by (auto split: prod.splits res.splits)
  with Cons.prems obtain ps where
    2: "map_elements self opts tk a pad len (Suc i) els seen1 = (Ok ps, seen')"
    by (auto split: prod.splits res.splits)
  from restoresD [OF assms 1] have "seen1 = seen" .
  moreover from Cons.IH [OF 2] have "seen' = seen1" .
  ultimately show ?case by simp
qed

lemma print_key_restores:
  assumes "restores self"
  shows "print_key self seen el = (Ok k, seen') \<Longrightarrow> seen' = seen"
  using assms by (auto simp: print_key_def split: key.splits if_splits dest: restoresD)

lemma map_keys_restores:
  assumes "restores self"
  shows "map_keys self opts tk a props pad len i els seen = (Ok parts, seen') \<Longrightarrow> seen' = seen"
proof (induction els arbitrary: i seen parts seen')
  case Nil
  then show ?case by simp
next
  case (Cons el els)
  from Cons.prems obtain k seen1 where
    1: "print_key self seen el = (Ok k, seen1)"
    by (auto split: prod.splits res.splits)
  with Cons.prems obtain v seen2 where
    2: "self seen1 (get_property props el) (pad @ indent opts) = (Ok v, seen2)"
    by (auto split: prod.splits res.splits)
  with 1 Cons.prems obtain ps where
    3: "map_keys self opts tk a props pad len (Suc i) els seen2 = (Ok ps, seen')"
    by (auto split: prod.splits res.splits)
  from print_key_restores [OF assms 1] have "seen1 = seen" .
  moreover from restoresD [OF assms 2] have "seen2 = seen1" .
  moreover from Cons.IH [OF 3] have "seen' = seen2" .
  ultimately show ?case by simp
qed

lemma prettyPrint_body_restores:
  assumes "restores self"
  shows "restores (prettyPrint_body self h opts)"
  unfolding restores_def
proof (intro allI impI)
  fix seen v pad s seen'
  assume *: "prettyPrint_body self h opts seen v pad = (Ok s, seen')"
  show "seen' = seen"
  proof (cases "seen_has seen v")
    case True
    with * show ?thesis by (simp add: prettyPrint_body_def)
  next
    case False
    show ?thesis
    proof (cases v)
      case (VRef a)
      show ?thesis
      proof (cases "lookup h a")
        case None
        with * False VRef show ?thesis by (simp add: prettyPrint_body_def)
      next
        case (Some c)
        show ?thesis
        proof (cases c)
          case (Arr els)
          with * False VRef Some show ?thesis
            by (auto simp: prettyPrint_body_def Let_def split: if_splits prod.splits res.splits
                dest!: map_elements_restores [OF assms])
        next
          case (Obj props)
          with * False VRef Some show ?thesis
            by (auto simp: prettyPrint_body_def Let_def split: if_splits prod.splits res.splits
                dest!: map_keys_restores [OF assms])
        qed
      qed
    qed (use * False in \<open>auto simp: prettyPrint_body_def split: option.splits\<close>)
  qed
qed

lemma prettyPrint_Suc: "prettyPrint (Suc n) h opts = prettyPrint_body (prettyPrint n h opts) h opts"
  by (intro ext) simp

lemma prettyPrint_restores: "restores (prettyPrint n h opts)"
proof (induction n)
  case 0
  show ?case by (simp add: restores_def)
next
  case (Suc n)
  from prettyPrint_body_restores [OF Suc] show ?case
    by (simp only: prettyPrint_Suc)
qed

section \<open>The printer returns on every store without an invalid date\<close>

lemma answersD: "answers h self seen \<Longrightarrow> safe_val h v \<Longrightarrow> \<exists>s. self seen v pad = (Ok s, seen)"
  unfolding answers_def by blast

lemma map_elements_answers:
  assumes "answers h self seen"
  shows "list_all (safe_val h) els \<Longrightarrow>
    \<exists>parts. map_elements self opts tk a pad len i els seen = (Ok parts, seen)"
proof (induction els arbitrary: i)
  case Nil
  show ?case by simp
next
  case (Cons el els)
  from Cons.prems have "safe_val h el" and rest: "list_all (safe_val h) els"
    by simp_all
  with assms obtain v where 1: "self seen el (pad @ indent opts) = (Ok v, seen)"
    by (blast dest: answersD)
  from Cons.IH [OF rest] obtain ps where
    "map_elements self opts tk a pad len (Suc i) els seen = (Ok ps, seen)"
    by blast
  with 1 show ?case by simp
qed

lemma get_property_safe:
  assumes "list_all (\<lambda>(k, e, v). safe_val h v) props"
  shows "safe_val h (get_property props k)"
proof (cases "map_of props k")
  case None
  then show ?thesis by (simp add: get_property_def safe_val_def)
next
  case (Some ev)
  obtain e v where ev: "ev = (e, v)" by (cases ev)
  with Some have "(k, e, v) \<in> set props"
    by (auto dest: map_of_SomeD)
  with assms have "safe_val h v"
    by (auto simp: list_all_iff)
  with Some ev show ?thesis by (simp add: get_property_def)
qed

lemma print_key_answers:
  assumes "answers h self seen"
  shows "\<exists>k. print_key self seen el = (Ok k, seen)"
proof (cases el)
  case (KSym s)
  then show ?thesis by (simp add: print_key_def)
next
  case (KStr s)
  have "safe_val h (VStr s)" by (simp add: safe_val_def)
  with assms obtain t where "self seen (VStr s) [] = (Ok t, seen)"
    by (blast dest: answersD)
  with KStr show ?thesis by (simp add: print_key_def)
qed

lemma map_keys_answers:
  assumes "answers h self seen" and "list_all (\<lambda>(k, e, v). safe_val h v) props"
  shows "\<exists>parts. map_keys self opts tk a props pad len i els seen = (Ok parts, seen)"
proof (induction els arbitrary: i)
  case Nil
  show ?case by simp
next
  case (Cons el els)
  from print_key_answers [OF assms(1)] obtain k where 1: "print_key self seen el = (Ok k, seen)"
    by blast
  from get_property_safe [OF assms(2)] have "safe_val h (get_property props el)" .
  with assms(1) obtain v where
    2: "self seen (get_property props el) (pad @ indent opts) = (Ok v, seen)"
    by (blast dest: answersD)
  from Cons.IH obtain ps where
    "map_keys self opts tk a props pad len (Suc i) els seen = (Ok ps, seen)"
    by blast
  with 1 2 show ?case by simp
qed

lemma unvisited_push:
  assumes "a < length h" and "a \<notin> set seen"
  shows "Suc (unvisited h (seen @ [a])) = unvisited h seen"
proof -
  have eq: "{..<length h} - set (seen @ [a]) = ({..<length h} - set seen) - {a}"
    by auto
  from assms have mem: "a \<in> {..<length h} - set seen"
    by simp
  have fin: "finite ({..<length h} - set seen)"
    by simp
  from fin mem have "card ({..<length h} - set seen) = Suc (card (({..<length h} - set seen) - {a}))"
    by (rule card.remove)
  with eq show ?thesis
    unfolding unvisited_def by (simp only:)
qed

lemma prettyPrint_body_answers:
  assumes self: "\<And>a. a < length h \<Longrightarrow> a \<notin> set seen \<Longrightarrow> answers h self (seen @ [a])"
    and h: "safe_store h" and v: "safe_val h v"
  shows "\<exists>s. prettyPrint_body self h opts seen v pad = (Ok s, seen) \<and> (seen_has seen v \<longrightarrow> s = circular)"
proof (cases "seen_has seen v")
  case True
  then show ?thesis by (simp add: prettyPrint_body_def)
next
  case False
  show ?thesis
  proof (cases v)
    case (VRef a)
    with v have a: "a < length h" by (simp add: safe_val_def)
    from False VRef have na: "a \<notin> set seen" by (simp add: seen_has_def)
    from a have look: "lookup h a = Some (h ! a)" by (simp add: lookup_def)
    from h a have cell: "safe_cell h (h ! a)" by (simp add: safe_store_def list_all_length)
    note ans = self [OF a na]
    show ?thesis
    proof (cases "h ! a")
      case (Arr els)
      with cell have "list_all (safe_val h) els" by (simp add: safe_cell_def)
      from map_elements_answers [OF ans this] obtain parts where
        "map_elements self opts (tokens_of opts pad) a pad (length els) 0 els (seen @ [a])
          = (Ok parts, seen @ [a])"
        by blast
      with False VRef look Arr show ?thesis
        by (simp add: prettyPrint_body_def Let_def)
    next
      case (Obj props)
      with cell have "list_all (\<lambda>(k, e, v). safe_val h v) props" by (simp add: safe_cell_def)
      from map_keys_answers [OF ans this] obtain parts where
        "map_keys self opts (tokens_of opts pad) a props pad (length (objKeys opts a props)) 0
           (objKeys opts a props) (seen @ [a]) = (Ok parts, seen @ [a])"
        by blast
      with False VRef look Obj show ?thesis
        by (simp add: prettyPrint_body_def Let_def)
    qed
  next
    case (VDate d)
    with v obtain t where "d = Some t" by (cases d) (simp_all add: safe_val_def)
    with False VDate show ?thesis by (simp add: prettyPrint_body_def)
  qed (use False in \<open>simp_all add: prettyPrint_body_def\<close>)
qed

lemma prettyPrint_answers:
  assumes "safe_store h"
  shows "unvisited h seen < n \<Longrightarrow> safe_val h v \<Longrightarrow>
    \<exists>s. prettyPrint n h opts seen v pad = (Ok s, seen) \<and> (seen_has seen v \<longrightarrow> s = circular)"
proof (induction n arbitrary: seen v pad)
  case 0
  then show ?case by simp
next
  case (Suc n)
  have ans: "answers h (prettyPrint n h opts) (seen @ [a])"
    if "a < length h" and "a \<notin> set seen" for a
  proof -
    from unvisited_push [OF that] Suc.prems(1) have "unvisited h (seen @ [a]) < n"
      by simp
    then show ?thesis
      unfolding answers_def using Suc.IH by blast
  qed
  show ?case
    unfolding prettyPrint_Suc
    by (rule prettyPrint_body_answers) (fact ans assms Suc.prems(2))+
qed

lemma unvisited_le: "unvisited h seen \<le> length h"
proof -
  have "card ({..<length h} - set seen) \<le> card {..<length h}"
    by (intro card_mono) auto
  then show ?thesis by (simp add: unvisited_def)
qed

text \<open>
  Claim C2, as the code has it. On a safe store (cyclic or not) and a safe input, with
  any options and any content of the visited list, a call whose depth bound exceeds the
  number of cells of the store returns a text and leaves the visited list as it was;
  when the input is a reference on the visited list the text is \<^verbatim>\<open>"[Circular]"\<close>.
  An invalid date is excluded: \<^verbatim>\<open>toISOString()\<close> throws on it.
\<close>

theorem render_total:
  assumes "safe_store h" and "safe_val h v" and "length h < n"
  shows "\<exists>s. prettyPrint n h opts seen v pad = (Ok s, seen) \<and> (seen_has seen v \<longrightarrow> s = circular)"
proof -
  from unvisited_le [of h seen] assms(3) have "unvisited h seen < n"
    by simp
  from prettyPrint_answers [OF assms(1) this assms(2)] show ?thesis .
qed

theorem render_total_witness:
  "safe_store store_cyclic \<and> safe_val store_cyclic (VRef 0) \<and> length store_cyclic < 3
   \<and> prettyPrint 3 store_cyclic defaultOptions [] (VRef 0) [] =
       (Ok (''['' @ [LF, tab] @ ''['' @ [LF, tab, tab] @ circular @ [LF, tab] @ '']'' @ [LF] @ '']''), [])"
proof -
  have 1: "safe_store store_cyclic" by code_simp
  have 2: "safe_val store_cyclic (VRef 0)" by code_simp
  have 3: "length store_cyclic < 3" by code_simp
  from render_total [OF 1 2 3, of defaultOptions "[]" "[]"] obtain s where
    s: "prettyPrint 3 store_cyclic defaultOptions [] (VRef 0) [] = (Ok s, [])"
    by blast
  have "fst (prettyPrint 3 store_cyclic defaultOptions [] (VRef 0) []) =
     Ok (''['' @ [LF, tab] @ ''['' @ [LF, tab, tab] @ circular @ [LF, tab] @ '']'' @ [LF] @ '']'')"
    by code_simp
  with s have "s = ''['' @ [LF, tab] @ ''['' @ [LF, tab, tab] @ circular @ [LF, tab] @ '']'' @ [LF] @ '']''"
    by simp
  with s 1 2 3 show ?thesis by simp
qed

text \<open>\<^verbatim>\<open>prettyPrint(new Date(NaN))\<close> ends in a \<^verbatim>\<open>RangeError\<close>.\<close>

theorem invalid_date_throws:
  "prettyPrint 3 [] defaultOptions [] (VDate None) [] = (Throw RangeError, [])"
  by code_simp

section \<open>What a composite's text is made of\<close>

text \<open>
  When the loop over the members returns, every member has been printed with the same
  visited list, the one the loop started with, and has contributed one part.
\<close>

lemma map_elements_parts:
  assumes "restores self"
  shows "map_elements self opts tk a pad len i els seen = (Ok parts, seen') \<Longrightarrow>
    length parts = length els \<and>
    (\<forall>j<length els. \<exists>v. self seen (els ! j) (pad @ indent opts) = (Ok v, seen)
        \<and> parts ! j = indentTok tk @ apply_transform opts a (PropIdx (i + j)) v @ eol tk len (i + j))"
proof (induction els arbitrary: i parts seen')
  case Nil
  then show ?case by auto
next
  case (Cons el els)
  from Cons.prems obtain v seen1 where
    1: "self seen el (pad @ indent opts) = (Ok v, seen1)"
    by (auto split: prod.splits res.splits)
  with Cons.prems obtain ps where
    2: "map_elements self opts tk a pad len (Suc i) els seen1 = (Ok ps, seen')"
    by (auto split: prod.splits res.splits)
  from restoresD [OF assms 1] have s1: "seen1 = seen" .
  from Cons.prems 1 2 have parts:
    "parts = (indentTok tk @ apply_transform opts a (PropIdx i) v @ eol tk len i) # ps"
    by simp
  from Cons.IH [OF 2 [unfolded s1]] have len: "length ps = length els"
    and rest: "\<forall>j<length els. \<exists>v. self seen (els ! j) (pad @ indent opts) = (Ok v, seen)
        \<and> ps ! j = indentTok tk @ apply_transform opts a (PropIdx (Suc i + j)) v @ eol tk len (Suc i + j)"
    by blast+
  have "\<exists>v. self seen ((el # els) ! j) (pad @ indent opts) = (Ok v, seen)
        \<and> parts ! j = indentTok tk @ apply_transform opts a (PropIdx (i + j)) v @ eol tk len (i + j)"
    if "j < length (el # els)" for j
  proof (cases j)
    case 0
    with 1 s1 parts show ?thesis by simp
  next
    case (Suc j')
    with that have "j' < length els" by simp
    with rest Suc parts show ?thesis by simp
  qed
  with len parts show ?case by simp
qed

lemma map_keys_parts:
  assumes "restores self"
  shows "map_keys self opts tk a props pad len i els seen = (Ok parts, seen') \<Longrightarrow>
    length parts = length els \<and>
    (\<forall>j<length els. \<exists>k v. print_key self seen (els ! j) = (Ok k, seen)
        \<and> self seen (get_property props (els ! j)) (pad @ indent opts) = (Ok v, seen)
        \<and> parts ! j = indentTok tk @ k @ '': '' @ apply_transform opts a (PropKey (els ! j)) v
             @ eol tk len (i + j))"
proof (induction els arbitrary: i parts seen')
  case Nil
  then show ?case by auto
next
  case (Cons el els)
  from Cons.prems obtain k seen1 where
    1: "print_key self seen el = (Ok k, seen1)"
    by (auto split: prod.splits res.splits)
  with Cons.prems obtain v seen2 where
    2: "self seen1 (get_property props el) (pad @ indent opts) = (Ok v, seen2)"
    by (auto split: prod.splits res.splits)
  with 1 Cons.prems obtain ps where
    3: "map_keys self opts tk a props pad len (Suc i) els seen2 = (Ok ps, seen')"
    by (auto split: prod.splits res.splits)
  from print_key_restores [OF assms 1] have s1: "seen1 = seen" .
  from restoresD [OF assms 2] s1 have s2: "seen2 = seen" by simp
  from Cons.prems 1 2 3 have parts:
    "parts = (indentTok tk @ k @ '': '' @ apply_transform opts a (PropKey el) v @ eol tk len i) # ps"
    by simp
  from Cons.IH [OF 3 [unfolded s2]] have len: "length ps = length els"
    and rest: "\<forall>j<length els. \<exists>k v. print_key self seen (els ! j) = (Ok k, seen)
        \<and> self seen (get_property props (els ! j)) (pad @ indent opts) = (Ok v, seen)
        \<and> ps ! j = indentTok tk @ k @ '': '' @ apply_transform opts a (PropKey (els ! j)) v
             @ eol tk len (Suc i + j)"
    by blast+
  have "\<exists>k v. print_key self seen ((el # els) ! j) = (Ok k, seen)
        \<and> self seen (get_property props ((el # els) ! j)) (pad @ indent opts) = (Ok v, seen)
        \<and> parts ! j = indentTok tk @ k @ '': '' @ apply_transform opts a (PropKey ((el # els) ! j)) v
             @ eol tk len (i + j)"
    if "j < length (el # els)" for j
  proof (cases j)
    case 0
    with 1 2 s1 s2 parts show ?thesis by simp
  next
    case (Suc j')
    with that have "j' < length els" by simp
    with rest Suc parts show ?thesis by simp
  qed
  with len parts show ?case by simp
qed

lemma prettyPrint_array:
  assumes "prettyPrint (Suc n) h opts seen (VRef a) pad = (Ok s, seen')"
    and "a \<notin> set seen" and "lookup h a = Some (Arr els)" and "els \<noteq> []"
  shows "\<exists>parts. map_elements (prettyPrint n h opts) opts (tokens_of opts pad) a pad (length els) 0 els
            (seen @ [a]) = (Ok parts, seen @ [a])
          \<and> s = expandWhiteSpace opts (tokens_of opts pad) pad
                (''['' @ newLine (tokens_of opts pad) @ concat parts @ padTok (tokens_of opts pad) @ '']'')"
proof -
  from assms obtain parts seen1 where
    1: "map_elements (prettyPrint n h opts) opts (tokens_of opts pad) a pad (length els) 0 els
            (seen @ [a]) = (Ok parts, seen1)"
    by (auto simp: prettyPrint_body_def seen_has_def Let_def split: prod.splits res.splits)
  from map_elements_restores [OF prettyPrint_restores 1] have "seen1 = seen @ [a]" .
  with 1 assms show ?thesis
    by (simp add: prettyPrint_body_def seen_has_def Let_def)
qed

lemma prettyPrint_object:
  assumes "prettyPrint (Suc n) h opts seen (VRef a) pad = (Ok s, seen')"
    and "a \<notin> set seen" and "lookup h a = Some (Obj props)" and "objKeys opts a props \<noteq> []"
  shows "\<exists>parts. map_keys (prettyPrint n h opts) opts (tokens_of opts pad) a props pad
            (length (objKeys opts a props)) 0 (objKeys opts a props) (seen @ [a])
              = (Ok parts, seen @ [a])
          \<and> s = expandWhiteSpace opts (tokens_of opts pad) pad
                (''{'' @ newLine (tokens_of opts pad) @ concat parts @ padTok (tokens_of opts pad) @ ''}'')"
proof -
  from assms obtain parts seen1 where
    1: "map_keys (prettyPrint n h opts) opts (tokens_of opts pad) a props pad
            (length (objKeys opts a props)) 0 (objKeys opts a props) (seen @ [a]) = (Ok parts, seen1)"
    by (auto simp: prettyPrint_body_def seen_has_def Let_def split: prod.splits res.splits)
  from map_keys_restores [OF prettyPrint_restores 1] have "seen1 = seen @ [a]" .
  with 1 assms show ?thesis
    by (simp add: prettyPrint_body_def seen_has_def Let_def)
qed

text \<open>
  Claim C9. The array branch never consults the filter hook: whatever filter is
  configured, when the call on a non-empty array that is not being printed already
  returns, each element has been printed (with the array pushed on the visited list) and
  its text, passed through the transform hook, is one part of the assembled text, in
  order.
\<close>

theorem filter_not_applied_to_elements:
  assumes "filter_opt opts = Some f"
    and "prettyPrint (Suc n) h opts seen (VRef a) pad = (Ok s, seen')"
    and "a \<notin> set seen" and "lookup h a = Some (Arr els)" and "els \<noteq> []"
  shows "\<exists>parts. length parts = length els
    \<and> (\<forall>j<length els. \<exists>v.
          prettyPrint n h opts (seen @ [a]) (els ! j) (pad @ indent opts) = (Ok v, seen @ [a])
          \<and> parts ! j = indentTok (tokens_of opts pad) @ apply_transform opts a (PropIdx j) v
               @ eol (tokens_of opts pad) (length els) j)
    \<and> s = expandWhiteSpace opts (tokens_of opts pad) pad
            (''['' @ newLine (tokens_of opts pad) @ concat parts @ padTok (tokens_of opts pad) @ '']'')"
proof -
  from prettyPrint_array [OF assms(2-5)] obtain parts where
    1: "map_elements (prettyPrint n h opts) opts (tokens_of opts pad) a pad (length els) 0 els
            (seen @ [a]) = (Ok parts, seen @ [a])"
    and 2: "s = expandWhiteSpace opts (tokens_of opts pad) pad
            (''['' @ newLine (tokens_of opts pad) @ concat parts @ padTok (tokens_of opts pad) @ '']'')"
    by blast
  from map_elements_parts [OF prettyPrint_restores 1] 2 show ?thesis
    by auto
qed

theorem filter_not_applied_to_elements_witness:
  "filter_opt (defaultOptions\<lparr>filter_opt := Some reject_all\<rparr>) = Some reject_all
   \<and> prettyPrint 2 store_numbers (defaultOptions\<lparr>filter_opt := Some reject_all\<rparr>) [] (VRef 0) []
       = (Ok (''['' @ [LF, tab] @ ''1,'' @ [LF, tab] @ ''2'' @ [LF] @ '']''), [])
   \<and> 0 \<notin> set ([] :: addr list)
   \<and> lookup store_numbers 0 = Some (Arr [VNum 1, VNum 2])
   \<and> (\<exists>parts. length parts = 2
        \<and> ''['' @ [LF, tab] @ ''1,'' @ [LF, tab] @ ''2'' @ [LF] @ '']'' = ''['' @ [LF] @ concat parts @ '']'')"
proof -
  let ?o = "defaultOptions\<lparr>filter_opt := Some reject_all\<rparr>"
  let ?t = "''['' @ [LF, tab] @ ''1,'' @ [LF, tab] @ ''2'' @ [LF] @ '']''"
  have 1: "filter_opt ?o = Some reject_all" by simp
  have 2: "prettyPrint 2 store_numbers ?o [] (VRef 0) [] = (Ok ?t, [])" by code_simp
  have two: "(2::nat) = Suc 1" by simp
  have 3: "0 \<notin> set ([] :: addr list)" by simp
  have 4: "lookup store_numbers 0 = Some (Arr [VNum 1, VNum 2])" by code_simp
  have 5: "[VNum 1, VNum 2] \<noteq> []" by simp
  from filter_not_applied_to_elements [OF 1 2 [unfolded two] 3 4 5] obtain parts where
    len: "length parts = length [VNum 1, VNum 2]"
    and out: "?t = expandWhiteSpace ?o (tokens_of ?o []) []
            (''['' @ newLine (tokens_of ?o []) @ concat parts @ padTok (tokens_of ?o []) @ '']'')"
    by blast
  from out have "?t = ''['' @ [LF] @ concat parts @ '']''"
    by (simp add: expandWhiteSpace_def tokens_of_def defaultOptions_def)
  moreover from len have "length parts = 2"
    by simp
  ultimately have 6: "\<exists>parts. length parts = 2 \<and> ?t = ''['' @ [LF] @ concat parts @ '']''"
    by (intro exI conjI)
  show ?thesis
    by (intro conjI) (fact 1 2 3 4 6)+
qed

text \<open>
  Claim C4. With \<^verbatim>\<open>inlineCharacterLimit\<close> configured, the text that a call returns for
  a non-empty array or object is decided by an inclusive bound: with \<open>ret\<close> the text
  assembled from the parts of the members, the call returns the one-line candidate
  \<open>oneLined ret\<close> when its length is at most the limit, and the multi-line form when
  its length exceeds the limit. For \<^verbatim>\<open>{id: 8, name: 'Jane'}\<close> the one-line text has 21
  characters: limit 21 gives it, limit 20 gives the multi-line text.
\<close>

theorem inline_limit_inclusive:
  assumes "inlineCharacterLimit opts = Some limit"
    and "prettyPrint (Suc n) h opts seen (VRef a) pad = (Ok s, seen')"
    and "a \<notin> set seen"
  shows "(\<forall>els. lookup h a = Some (Arr els) \<and> els \<noteq> [] \<longrightarrow>
            (\<exists>parts ret.
                map_elements (prettyPrint n h opts) opts (tokens_of opts pad) a pad (length els) 0 els
                  (seen @ [a]) = (Ok parts, seen @ [a])
              \<and> ret = ''['' @ newLine (tokens_of opts pad) @ concat parts
                         @ padTok (tokens_of opts pad) @ '']''
              \<and> (int (length (oneLined (tokens_of opts pad) ret)) \<le> limit
                    \<longrightarrow> s = oneLined (tokens_of opts pad) ret)
              \<and> (limit < int (length (oneLined (tokens_of opts pad) ret))
                    \<longrightarrow> s = multiLined opts (tokens_of opts pad) pad ret)))
       \<and> (\<forall>props. lookup h a = Some (Obj props) \<and> objKeys opts a props \<noteq> [] \<longrightarrow>
            (\<exists>parts ret.
                map_keys (prettyPrint n h opts) opts (tokens_of opts pad) a props pad
                  (length (objKeys opts a props)) 0 (objKeys opts a props) (seen @ [a])
                    = (Ok parts, seen @ [a])
              \<and> ret = ''{'' @ newLine (tokens_of opts pad) @ concat parts
                         @ padTok (tokens_of opts pad) @ ''}''
              \<and> (int (length (oneLined (tokens_of opts pad) ret)) \<le> limit
                    \<longrightarrow> s = oneLined (tokens_of opts pad) ret)
              \<and> (limit < int (length (oneLined (tokens_of opts pad) ret))
                    \<longrightarrow> s = multiLined opts (tokens_of opts pad) pad ret)))"
proof (intro conjI allI impI)
  fix els
  assume "lookup h a = Some (Arr els) \<and> els \<noteq> []"
  then have "lookup h a = Some (Arr els)" and "els \<noteq> []"
    by simp_all
  from prettyPrint_array [OF assms(2,3) this] assms(1)
  show "\<exists>parts ret.
      map_elements (prettyPrint n h opts) opts (tokens_of opts pad) a pad (length els) 0 els
        (seen @ [a]) = (Ok parts, seen @ [a])
      \<and> ret = ''['' @ newLine (tokens_of opts pad) @ concat parts @ padTok (tokens_of opts pad) @ '']''
      \<and> (int (length (oneLined (tokens_of opts pad) ret)) \<le> limit
            \<longrightarrow> s = oneLined (tokens_of opts pad) ret)
      \<and> (limit < int (length (oneLined (tokens_of opts pad) ret))
            \<longrightarrow> s = multiLined opts (tokens_of opts pad) pad ret)"
    by (auto simp: expandWhiteSpace_def)
next
  fix props
  assume "lookup h a = Some (Obj props) \<and> objKeys opts a props \<noteq> []"
  then have "lookup h a = Some (Obj props)" and "objKeys opts a props \<noteq> []"
    by simp_all
  from prettyPrint_object [OF assms(2,3) this] assms(1)
  show "\<exists>parts ret.
      map_keys (prettyPrint n h opts) opts (tokens_of opts pad) a props pad
        (length (objKeys opts a props)) 0 (objKeys opts a props) (seen @ [a])
          = (Ok parts, seen @ [a])
      \<and> ret = ''{'' @ newLine (tokens_of opts pad) @ concat parts @ padTok (tokens_of opts pad) @ ''}''
      \<and> (int (length (oneLined (tokens_of opts pad) ret)) \<le> limit
            \<longrightarrow> s = oneLined (tokens_of opts pad) ret)
      \<and> (limit < int (length (oneLined (tokens_of opts pad) ret))
            \<longrightarrow> s = multiLined opts (tokens_of opts pad) pad ret)"
    by (auto simp: expandWhiteSpace_def)
qed

theorem inline_limit_inclusive_witness:
  "inlineCharacterLimit (defaultOptions\<lparr>inlineCharacterLimit := Some 21\<rparr>) = Some 21
   \<and> int (length jane_one_line) = 21
   \<and> prettyPrint 2 store_jane (defaultOptions\<lparr>inlineCharacterLimit := Some 21\<rparr>) [] (VRef 0) []
       = (Ok jane_one_line, [])
   \<and> prettyPrint 2 store_jane (defaultOptions\<lparr>inlineCharacterLimit := Some 20\<rparr>) [] (VRef 0) []
       = (Ok jane_multi_line, [])
   \<and> prettyPrint 2 store_jane defaultOptions [] (VRef 0) [] = (Ok jane_multi_line, [])
   \<and> (\<exists>ret. int (length (oneLined (tokens_of (defaultOptions\<lparr>inlineCharacterLimit := Some 21\<rparr>) []) ret)) \<le> 21
          \<and> jane_one_line = oneLined (tokens_of (defaultOptions\<lparr>inlineCharacterLimit := Some 21\<rparr>) []) ret)"
proof -
  let ?o = "defaultOptions\<lparr>inlineCharacterLimit := Some 21\<rparr>"
  let ?props = "[(KStr ''id'', True, VNum 8), (KStr ''name'', True, VStr ''Jane'')]"
  let ?tk = "tokens_of ?o []"
  have 1: "inlineCharacterLimit ?o = Some 21" by simp
  have 2: "prettyPrint 2 store_jane ?o [] (VRef 0) [] = (Ok jane_one_line, [])" by code_simp
  have two: "(2::nat) = Suc 1" by simp
  have 3: "0 \<notin> set ([] :: addr list)" by simp
  have 4: "int (length jane_one_line) = 21" by code_simp
  have 5: "prettyPrint 2 store_jane (defaultOptions\<lparr>inlineCharacterLimit := Some 20\<rparr>) [] (VRef 0) []
       = (Ok jane_multi_line, [])" by code_simp
  have 6: "prettyPrint 2 store_jane defaultOptions [] (VRef 0) [] = (Ok jane_multi_line, [])"
    by code_simp
  have look: "lookup store_jane 0 = Some (Obj ?props) \<and> objKeys ?o 0 ?props \<noteq> []"
    by code_simp
  from inline_limit_inclusive [OF 1 2 [unfolded two] 3] look obtain ret where
    le: "int (length (oneLined ?tk ret)) \<le> 21 \<longrightarrow> jane_one_line = oneLined ?tk ret"
    and gt: "21 < int (length (oneLined ?tk ret)) \<longrightarrow> jane_one_line = multiLined ?o ?tk [] ret"
    and mk: "\<exists>parts. map_keys (prettyPrint 1 store_jane ?o) ?o ?tk 0 ?props []
        (length (objKeys ?o 0 ?props)) 0 (objKeys ?o 0 ?props) ([] @ [0]) = (Ok parts, [] @ [0])
        \<and> ret = ''{'' @ newLine ?tk @ concat parts @ padTok ?tk @ ''}''"
    by blast
  have mk': "map_keys (prettyPrint 1 store_jane ?o) ?o ?tk 0 ?props []
        (length (objKeys ?o 0 ?props)) 0 (objKeys ?o 0 ?props) ([] @ [0])
      = (Ok [indentTok ?tk @ ''id: 8,'' @ newLineOrSpace ?tk,
             indentTok ?tk @ ''name: '' @ [squote] @ ''Jane'' @ [squote] @ newLine ?tk], [] @ [0])"
    by code_simp
  from mk mk' have ret: "ret = ''{'' @ newLine ?tk @ concat [indentTok ?tk @ ''id: 8,'' @ newLineOrSpace ?tk,
             indentTok ?tk @ ''name: '' @ [squote] @ ''Jane'' @ [squote] @ newLine ?tk] @ padTok ?tk @ ''}''"
    by (elim exE conjE) (simp only: prod.inject res.inject)
  have "int (length (oneLined ?tk (''{'' @ newLine ?tk @ concat [indentTok ?tk @ ''id: 8,'' @ newLineOrSpace ?tk,
             indentTok ?tk @ ''name: '' @ [squote] @ ''Jane'' @ [squote] @ newLine ?tk] @ padTok ?tk @ ''}''))) \<le> 21"
    by code_simp
  with ret have len: "int (length (oneLined ?tk ret)) \<le> 21"
    by (simp only:)
  with le have "jane_one_line = oneLined ?tk ret"
    by (rule_tac mp)
  with len have 7: "\<exists>ret. int (length (oneLined ?tk ret)) \<le> 21 \<and> jane_one_line = oneLined ?tk ret"
    by (intro exI conjI)
  show ?thesis
    by (intro conjI) (fact 1 2 4 5 6 7)+
qed

text \<open>A text value is printed by \<open>quote_text\<close>, whatever the visited list holds.\<close>

lemma prettyPrint_text:
  "prettyPrint (Suc n) h opts seen (VStr t) pad = (Ok (quote_text opts t), seen)"
  by (simp add: prettyPrint_body_def seen_has_def)

text \<open>
  Claim C8. In the text of an object, the part of a retained string key \<open>name\<close> starts
  with the key as it is exactly when \<open>isClassic name\<close> holds, that is when the name
  matches \<^verbatim>\<open>/^[a-z$_][a-z$_0-9]*$/i\<close>; otherwise it starts with \<open>quote_text opts name\<close>,
  which is the text the printer returns for the text value \<open>name\<close>.
\<close>

theorem string_key_bare_iff_classic:
  assumes "prettyPrint (Suc n) h opts seen (VRef a) pad = (Ok s, seen')"
    and "a \<notin> set seen" and "lookup h a = Some (Obj props)"
    and "j < length (objKeys opts a props)" and "objKeys opts a props ! j = KStr name"
  shows "\<exists>parts v.
      s = expandWhiteSpace opts (tokens_of opts pad) pad
            (''{'' @ newLine (tokens_of opts pad) @ concat parts @ padTok (tokens_of opts pad) @ ''}'')
    \<and> length parts = length (objKeys opts a props)
    \<and> parts ! j = indentTok (tokens_of opts pad)
          @ (if isClassic name then name else quote_text opts name)
          @ '': '' @ v @ eol (tokens_of opts pad) (length (objKeys opts a props)) j
    \<and> (\<forall>m seen1 pad1. prettyPrint (Suc m) h opts seen1 (VStr name) pad1
          = (Ok (quote_text opts name), seen1))"
proof -
  let ?tk = "tokens_of opts pad"
  let ?keys = "objKeys opts a props"
  from assms(4) have ne: "?keys \<noteq> []" by auto
  from prettyPrint_object [OF assms(1-3) ne] obtain parts where
    1: "map_keys (prettyPrint n h opts) opts ?tk a props pad (length ?keys) 0 ?keys (seen @ [a])
          = (Ok parts, seen @ [a])"
    and 2: "s = expandWhiteSpace opts ?tk pad (''{'' @ newLine ?tk @ concat parts @ padTok ?tk @ ''}'')"
    by blast
  from map_keys_parts [OF prettyPrint_restores 1] assms(4) obtain k v where
    len: "length parts = length ?keys"
    and key: "print_key (prettyPrint n h opts) (seen @ [a]) (?keys ! j) = (Ok k, seen @ [a])"
    and part: "parts ! j = indentTok ?tk @ k @ '': '' @ apply_transform opts a (PropKey (?keys ! j)) v
             @ eol ?tk (length ?keys) (0 + j)"
    by blast
  have k: "k = (if isClassic name then name else quote_text opts name)"
  proof (cases "isClassic name")
    case True
    with key assms(5) show ?thesis by (simp add: print_key_def)
  next
    case False
    with key assms(5) have *: "prettyPrint n h opts (seen @ [a]) (VStr name) [] = (Ok k, seen @ [a])"
      by (simp add: print_key_def)
    then obtain m where "n = Suc m" by (cases n) simp_all
    with * False show ?thesis by (simp add: prettyPrint_text del: prettyPrint.simps)
  qed
  from part k have "parts ! j = indentTok ?tk @ (if isClassic name then name else quote_text opts name)
      @ '': '' @ apply_transform opts a (PropKey (?keys ! j)) v @ eol ?tk (length ?keys) j"
    by simp
  with 2 len prettyPrint_text show ?thesis
    by blast
qed

theorem string_key_bare_iff_classic_witness:
  "prettyPrint 2 store_keys defaultOptions [] (VRef 0) []
      = (Ok (''{'' @ [LF, tab, squote] @ ''foo-foo'' @ [squote] @ '': 1,'' @ [LF, tab] @ ''$el: 2''
             @ [LF] @ ''}''), [])
   \<and> 0 \<notin> set ([] :: addr list)
   \<and> lookup store_keys 0 = Some (Obj [(KStr ''foo-foo'', True, VNum 1), (KStr ''$el'', True, VNum 2)])
   \<and> 0 < length (objKeys defaultOptions 0 [(KStr ''foo-foo'', True, VNum 1), (KStr ''$el'', True, VNum 2)])
   \<and> objKeys defaultOptions 0 [(KStr ''foo-foo'', True, VNum 1), (KStr ''$el'', True, VNum 2)] ! 0
       = KStr ''foo-foo''
   \<and> \<not> isClassic ''foo-foo'' \<and> isClassic ''$el''
   \<and> (\<exists>parts v. parts ! 0 = indentTok (tokens_of defaultOptions [])
          @ (if isClassic ''foo-foo'' then ''foo-foo'' else quote_text defaultOptions ''foo-foo'')
          @ '': '' @ v @ eol (tokens_of defaultOptions [])
              (length (objKeys defaultOptions 0 [(KStr ''foo-foo'', True, VNum 1), (KStr ''$el'', True, VNum 2)])) 0)"
proof -
  let ?props = "[(KStr ''foo-foo'', True, VNum 1), (KStr ''$el'', True, VNum 2)]"
  have 1: "prettyPrint 2 store_keys defaultOptions [] (VRef 0) []
      = (Ok (''{'' @ [LF, tab, squote] @ ''foo-foo'' @ [squote] @ '': 1,'' @ [LF, tab] @ ''$el: 2''
             @ [LF] @ ''}''), [])"
    by code_simp
  have two: "(2::nat) = Suc 1" by simp
  have 2: "0 \<notin> set ([] :: addr list)" by simp
  have 3: "lookup store_keys 0 = Some (Obj ?props)" by code_simp
  have 4: "0 < length (objKeys defaultOptions 0 ?props)" by code_simp
  have 5: "objKeys defaultOptions 0 ?props ! 0 = KStr ''foo-foo''" by code_simp
  have 6: "\<not> isClassic ''foo-foo''" by code_simp
  have 7: "isClassic ''$el''" by code_simp
  from string_key_bare_iff_classic [OF 1 [unfolded two] 2 3 4 5]
  have 8: "\<exists>parts v. parts ! 0 = indentTok (tokens_of defaultOptions [])
          @ (if isClassic ''foo-foo'' then ''foo-foo'' else quote_text defaultOptions ''foo-foo'')
          @ '': '' @ v @ eol (tokens_of defaultOptions []) (length (objKeys defaultOptions 0 ?props)) 0"
    by blast
  show ?thesis
    by (intro conjI) (fact 1 2 3 4 5 6 7 8)+
qed

section \<open>The printer marks a reference circular exactly on its ancestor chain\<close>











section \<open>Only composites with members are ever on the visited list\<close>

text \<open>
  The visited list is empty at first and every call keeps the property that all its
  entries have members, also a call that ends in an exception.
\<close>

lemma keepsD: "keeps P self \<Longrightarrow> P seen \<Longrightarrow> P (snd (self seen v pad))"
  unfolding keeps_def by blast

lemma map_elements_keeps:
  assumes "keeps P self"
  shows "P seen \<Longrightarrow> P (snd (map_elements self opts tk a pad len i els seen))"
proof (induction els arbitrary: i seen)
  case Nil
  then show ?case by simp
next
  case (Cons el els)
  obtain r seen1 where 1: "self seen el (pad @ indent opts) = (r, seen1)"
    by (cases "self seen el (pad @ indent opts)")
  with keepsD [OF assms Cons.prems, of el "pad @ indent opts"] have p1: "P seen1"
    by simp
  from Cons.IH [OF p1, of "Suc i"] 1 p1 show ?case
    by (cases r; cases "map_elements self opts tk a pad len (Suc i) els seen1")
      (auto split: res.splits)
qed

lemma print_key_keeps:
  assumes "keeps P self"
  shows "P seen \<Longrightarrow> P (snd (print_key self seen el))"
  using keepsD [OF assms]
  by (auto simp: print_key_def split: key.splits)

lemma map_keys_keeps:
  assumes "keeps P self"
  shows "P seen \<Longrightarrow> P (snd (map_keys self opts tk a props pad len i els seen))"
proof (induction els arbitrary: i seen)
  case Nil
  then show ?case by simp
next
  case (Cons el els)
  obtain rk seen1 where 1: "print_key self seen el = (rk, seen1)"
    by (cases "print_key self seen el")
  with print_key_keeps [OF assms Cons.prems, of el] have p1: "P seen1"
    by simp
  obtain r seen2 where 2: "self seen1 (get_property props el) (pad @ indent opts) = (r, seen2)"
    by (cases "self seen1 (get_property props el) (pad @ indent opts)")
  with keepsD [OF assms p1, of "get_property props el" "pad @ indent opts"] have p2: "P seen2"
    by simp
  from Cons.IH [OF p2, of "Suc i"] 1 2 p1 p2 show ?case
    by (cases rk; cases r; cases "map_keys self opts tk a props pad len (Suc i) els seen2")
      (auto split: res.splits)
qed

lemma list_all_butlast: "list_all P xs \<Longrightarrow> list_all P (butlast xs)"
  by (auto simp: list_all_iff dest: in_set_butlastD)

lemma prettyPrint_body_keeps:
  assumes "keeps (list_all (has_members h opts)) self"
  shows "keeps (list_all (has_members h opts)) (prettyPrint_body self h opts)"
  unfolding keeps_def
proof (intro allI impI)
  fix seen v pad
  assume inv: "list_all (has_members h opts) seen"
  show "list_all (has_members h opts) (snd (prettyPrint_body self h opts seen v pad))"
  proof (cases "seen_has seen v")
    case True
    with inv show ?thesis by (simp add: prettyPrint_body_def)
  next
    case False
    show ?thesis
    proof (cases v)
      case (VRef a)
      show ?thesis
      proof (cases "lookup h a")
        case None
        with inv False VRef show ?thesis by (simp add: prettyPrint_body_def)
      next
        case (Some c)
        show ?thesis
        proof (cases c)
          case (Arr els)
          show ?thesis
          proof (cases "els = []")
            case True
            with inv False VRef Some Arr show ?thesis by (simp add: prettyPrint_body_def)
          next
            case ne: False
            with Some Arr inv have "list_all (has_members h opts) (seen @ [a])"
              by (simp add: has_members_def)
            from map_elements_keeps [OF assms this,
                of opts "tokens_of opts pad" a pad "length els" 0 els]
            show ?thesis
              using False VRef Some Arr ne
              by (cases "map_elements self opts (tokens_of opts pad) a pad (length els) 0 els
                    (seen @ [a])")
                (auto simp: prettyPrint_body_def Let_def list_all_butlast split: res.splits)
          qed
        next
          case (Obj props)
          show ?thesis
          proof (cases "objKeys opts a props = []")
            case True
            with inv False VRef Some Obj show ?thesis by (simp add: prettyPrint_body_def)
          next
            case ne: False
            with Some Obj inv have "list_all (has_members h opts) (seen @ [a])"
              by (simp add: has_members_def)
            from map_keys_keeps [OF assms this,
                of opts "tokens_of opts pad" a props pad "length (objKeys opts a props)" 0
                  "objKeys opts a props"]
            show ?thesis
              using False VRef Some Obj ne
              by (cases "map_keys self opts (tokens_of opts pad) a props pad
                    (length (objKeys opts a props)) 0 (objKeys opts a props) (seen @ [a])")
                (auto simp: prettyPrint_body_def Let_def list_all_butlast split: res.splits)
          qed
        qed
      qed
    qed (use inv False in \<open>auto simp: prettyPrint_body_def split: option.splits\<close>)
  qed
qed

lemma prettyPrint_keeps: "keeps (list_all (has_members h opts)) (prettyPrint n h opts)"
proof (induction n)
  case 0
  show ?case by (simp add: keeps_def)
next
  case (Suc n)
  from prettyPrint_body_keeps [OF Suc] show ?case
    by (simp only: prettyPrint_Suc)
qed

text \<open>
  Claim C7, as the code has it. A call on an empty array that is not on the visited
  list returns \<^verbatim>\<open>[]\<close>, and a call on an object that is not on the list and whose retained
  key list is empty returns \<^verbatim>\<open>{}\<close>, both with the visited list untouched: nothing is
  pushed or popped. The list is empty at first, and as long as all its entries have
  members under the store and the options of the call, it stays so after the call and
  holds no empty composite, so none is found by the cycle check.
\<close>

theorem empty_composite_never_pushed:
  "(a \<notin> set seen \<longrightarrow>
      (lookup h a = Some (Arr []) \<longrightarrow>
         prettyPrint (Suc n) h opts seen (VRef a) pad = (Ok ''[]'', seen))
      \<and> (\<forall>props. lookup h a = Some (Obj props) \<and> objKeys opts a props = [] \<longrightarrow>
            prettyPrint (Suc n) h opts seen (VRef a) pad = (Ok ''{}'', seen)))
   \<and> list_all (has_members h opts) []
   \<and> (list_all (has_members h opts) seen \<longrightarrow>
        list_all (has_members h opts) (snd (prettyPrint m h opts seen v pad'))
        \<and> (lookup h a = Some (Arr []) \<longrightarrow> a \<notin> set seen)
        \<and> (\<forall>props. lookup h a = Some (Obj props) \<and> objKeys opts a props = [] \<longrightarrow> a \<notin> set seen))"
proof (intro conjI allI impI)
  assume "a \<notin> set seen" and "lookup h a = Some (Arr [])"
  then show "prettyPrint (Suc n) h opts seen (VRef a) pad = (Ok ''[]'', seen)"
    by (simp add: prettyPrint_body_def seen_has_def)
next
  fix props
  assume "a \<notin> set seen" and "lookup h a = Some (Obj props) \<and> objKeys opts a props = []"
  then show "prettyPrint (Suc n) h opts seen (VRef a) pad = (Ok ''{}'', seen)"
    by (simp add: prettyPrint_body_def seen_has_def)
next
  show "list_all (has_members h opts) []"
    by simp
next
  assume "list_all (has_members h opts) seen"
  with prettyPrint_keeps
  show "list_all (has_members h opts) (snd (prettyPrint m h opts seen v pad'))"
    by (rule keepsD)
next
  assume inv: "list_all (has_members h opts) seen" and "lookup h a = Some (Arr [])"
  then have "\<not> has_members h opts a"
    by (simp add: has_members_def)
  with inv show "a \<notin> set seen"
    by (auto simp: list_all_iff)
next
  fix props
  assume inv: "list_all (has_members h opts) seen"
    and "lookup h a = Some (Obj props) \<and> objKeys opts a props = []"
  then have "\<not> has_members h opts a"
    by (simp add: has_members_def)
  with inv show "a \<notin> set seen"
    by (auto simp: list_all_iff)
qed

theorem empty_composite_never_pushed_witness:
  "1 \<notin> set [0 :: addr]
   \<and> lookup store_empties 1 = Some (Arr [])
   \<and> prettyPrint 1 store_empties defaultOptions [0] (VRef 1) [tab] = (Ok ''[]'', [0])
   \<and> list_all (has_members store_empties defaultOptions) [0]
   \<and> list_all (has_members store_empties defaultOptions)
        (snd (prettyPrint 2 store_empties defaultOptions [0] (VRef 0) []))
   \<and> prettyPrint 2 store_empties defaultOptions [] (VRef 0) []
       = (Ok (''['' @ [LF, tab] @ ''[],'' @ [LF, tab] @ ''{},'' @ [LF, tab] @ ''[]'' @ [LF] @ '']''), [])"
proof -
  note t = empty_composite_never_pushed [of 1 "[0]" store_empties 0 defaultOptions "[tab]" 2 "VRef 0" "[]"]
  have 1: "1 \<notin> set [0 :: addr]" by simp
  have 2: "lookup store_empties 1 = Some (Arr [])" by code_simp
  have one: "(1 :: nat) = Suc 0" by simp
  from t 1 2 have "prettyPrint (Suc 0) store_empties defaultOptions [0] (VRef 1) [tab] = (Ok ''[]'', [0])"
    by blast
  then have 3: "prettyPrint 1 store_empties defaultOptions [0] (VRef 1) [tab] = (Ok ''[]'', [0])"
    by (simp only: one)
  have 4: "list_all (has_members store_empties defaultOptions) [0]" by code_simp
  from t 4 have 5: "list_all (has_members store_empties defaultOptions)
        (snd (prettyPrint 2 store_empties defaultOptions [0] (VRef 0) []))"
    by blast
  have 6: "prettyPrint 2 store_empties defaultOptions [] (VRef 0) []
       = (Ok (''['' @ [LF, tab] @ ''[],'' @ [LF, tab] @ ''{},'' @ [LF, tab] @ ''[]'' @ [LF] @ '']''), [])"
    by code_simp
  show ?thesis
    by (intro conjI) (fact 1 2 3 4 5 6)+
qed

text \<open>
  The call on \<^verbatim>\<open>{d: new Date(NaN)}\<close> throws and leaves the object on the visited list.
  Under a filter that rejects every key its retained key list is empty, and a call with
  the empty list returns \<^verbatim>\<open>{}\<close>; the call with the list left behind returns the marker.
\<close>

theorem stale_entry_prints_empty_circular:
  "prettyPrint 3 store_invalid_date defaultOptions [] (VRef 0) [] = (Throw RangeError, [0])
   \<and> lookup store_invalid_date 0 = Some (Obj [(KStr ''d'', True, VDate None)])
   \<and> objKeys (defaultOptions\<lparr>filter_opt := Some reject_all\<rparr>) 0 [(KStr ''d'', True, VDate None)] = []
   \<and> prettyPrint 3 store_invalid_date (defaultOptions\<lparr>filter_opt := Some reject_all\<rparr>) [] (VRef 0) []
       = (Ok ''{}'', [])
   \<and> prettyPrint 3 store_invalid_date (defaultOptions\<lparr>filter_opt := Some reject_all\<rparr>) [0] (VRef 0) []
       = (Ok ([dquote] @ ''[Circular]'' @ [dquote]), [0])"
  by code_simp

section \<open>Order of the keys of an object\<close>

lemma Object_keys_eq:
  "Object_keys props = map fst (filter (\<lambda>p. is_string_key (fst p) \<and> fst (snd p)) props)"
  by (induction props) (auto simp: Object_keys_def is_string_key_def split: key.splits)

lemma getOwnPropertySymbols_eq:
  "getOwnPropertySymbols props = map fst (filter (\<lambda>p. \<not> is_string_key (fst p)) props)"
  by (induction props) (auto simp: getOwnPropertySymbols_def is_string_key_def split: key.splits)

lemma propertyIsEnumerable_distinct:
  assumes "distinct (map fst props)" and "p \<in> set props"
  shows "propertyIsEnumerable props (fst p) = fst (snd p)"
proof -
  from assms(2) have "(fst p, snd p) \<in> set props" by simp
  with assms(1) have "map_of props (fst p) = Some (snd p)"
    by (rule map_of_is_SomeI)
  then show ?thesis
    by (cases "snd p") (simp add: propertyIsEnumerable_def)
qed

lemma getOwnEnumPropSymbols_eq:
  assumes "distinct (map fst props)"
  shows "getOwnEnumPropSymbols props
    = map fst (filter (\<lambda>p. \<not> is_string_key (fst p) \<and> fst (snd p)) props)"
proof -
  have "getOwnEnumPropSymbols props
      = map fst (filter (\<lambda>p. propertyIsEnumerable props (fst p))
          (filter (\<lambda>p. \<not> is_string_key (fst p)) props))"
    by (simp add: getOwnEnumPropSymbols_def getOwnPropertySymbols_eq filter_map comp_def)
  also have "\<dots> = map fst (filter (\<lambda>p. fst (snd p)) (filter (\<lambda>p. \<not> is_string_key (fst p)) props))"
  proof -
    have "filter (\<lambda>p. propertyIsEnumerable props (fst p)) (filter (\<lambda>p. \<not> is_string_key (fst p)) props)
        = filter (\<lambda>p. fst (snd p)) (filter (\<lambda>p. \<not> is_string_key (fst p)) props)"
      by (rule filter_cong) (auto simp: propertyIsEnumerable_distinct [OF assms])
    then show ?thesis by simp
  qed
  also have "\<dots> = map fst (filter (\<lambda>p. \<not> is_string_key (fst p) \<and> fst (snd p)) props)"
    by (simp add: conj_commute)
  finally show ?thesis .
qed

lemma objKeys_spec:
  assumes "distinct (map fst props)"
  shows "objKeys opts a props =
     (case filter_opt opts of
        None \<Rightarrow> spec_keys props
      | Some f \<Rightarrow> filter (\<lambda>k. f a (PropKey k)) (spec_keys props))"
  by (simp add: objKeys_def spec_keys_def Object_keys_eq getOwnEnumPropSymbols_eq [OF assms]
      Let_def split: option.splits)

lemma objKeys_subset_spec:
  assumes "distinct (map fst props)"
  shows "set (objKeys opts a props) \<subseteq> set (spec_keys props)"
  by (auto simp: objKeys_spec [OF assms] split: option.splits)

lemma spec_keys_enumerable:
  assumes "k \<in> set (spec_keys props)"
  shows "\<exists>v. (k, True, v) \<in> set props"
proof -
  from assms obtain p where p: "p \<in> set props" and k: "fst p = k" and e: "fst (snd p)"
    by (auto simp: spec_keys_def)
  obtain k' e' v' where "p = (k', e', v')"
    by (cases p)
  with k e have "p = (k, True, v')"
    by simp
  with p have "(k, True, v') \<in> set props"
    by simp
  then show ?thesis ..
qed

lemma non_enumerable_not_listed:
  assumes "distinct (map fst props)" and "(k, False, v) \<in> set props"
  shows "k \<notin> set (objKeys opts a props)"
proof
  assume "k \<in> set (objKeys opts a props)"
  with objKeys_subset_spec [OF assms(1)] have "k \<in> set (spec_keys props)"
    by blast
  then obtain v' where "(k, True, v') \<in> set props"
    by (blast dest: spec_keys_enumerable)
  with assms(1) have "map_of props k = Some (True, v')"
    by (rule map_of_is_SomeI)
  moreover from assms have "map_of props k = Some (False, v)"
    by (rule map_of_is_SomeI)
  ultimately show False by simp
qed

lemma print_key_text:
  assumes "print_key (prettyPrint n h opts) seen el = (Ok k, seen1)"
  shows "k = key_text opts el"
proof (cases el)
  case (KSym s)
  with assms show ?thesis by (simp add: print_key_def key_text_def)
next
  case (KStr s)
  show ?thesis
  proof (cases "isClassic s")
    case True
    with assms KStr show ?thesis by (simp add: print_key_def key_text_def)
  next
    case False
    with assms KStr have *: "prettyPrint n h opts seen (VStr s) [] = (Ok k, seen1)"
      by (simp add: print_key_def)
    then obtain m where "n = Suc m" by (cases n) simp_all
    with * False KStr show ?thesis
      by (simp add: prettyPrint_text key_text_def del: prettyPrint.simps)
  qed
qed

text \<open>
  Claim C6. For an object (its keys are distinct), the key list of the printer is the
  key list of the specification, filtered by the filter hook when one is configured; a
  symbol key that is not enumerable is not in it; and in the text of the object the
  parts stand in the order of this list, each headed by the text of its key. The list is
  a function of the properties and the options, so equal inputs give the same order.
\<close>

theorem keys_strings_then_symbols:
  assumes "distinct (map fst props)"
  shows "objKeys opts a props =
           (case filter_opt opts of
              None \<Rightarrow> spec_keys props
            | Some f \<Rightarrow> filter (\<lambda>k. f a (PropKey k)) (spec_keys props))
       \<and> (\<forall>s v. (KSym s, False, v) \<in> set props \<longrightarrow> KSym s \<notin> set (objKeys opts a props))
       \<and> (\<forall>n h seen pad s seen'.
             prettyPrint (Suc n) h opts seen (VRef a) pad = (Ok s, seen') \<and> a \<notin> set seen
               \<and> lookup h a = Some (Obj props) \<and> objKeys opts a props \<noteq> [] \<longrightarrow>
             (\<exists>parts. length parts = length (objKeys opts a props)
                \<and> (\<forall>j<length parts. \<exists>v.
                      parts ! j = indentTok (tokens_of opts pad) @ key_text opts (objKeys opts a props ! j)
                        @ '': '' @ v @ eol (tokens_of opts pad) (length (objKeys opts a props)) j)
                \<and> s = expandWhiteSpace opts (tokens_of opts pad) pad
                        (''{'' @ newLine (tokens_of opts pad) @ concat parts
                           @ padTok (tokens_of opts pad) @ ''}'')))"
proof (intro conjI allI impI)
  show "objKeys opts a props =
           (case filter_opt opts of
              None \<Rightarrow> spec_keys props
            | Some f \<Rightarrow> filter (\<lambda>k. f a (PropKey k)) (spec_keys props))"
    by (rule objKeys_spec [OF assms])
next
  fix s v
  assume "(KSym s, False, v) \<in> set props"
  with assms show "KSym s \<notin> set (objKeys opts a props)"
    by (rule non_enumerable_not_listed)
next
  fix n h seen pad s seen'
  let ?tk = "tokens_of opts pad"
  let ?keys = "objKeys opts a props"
  assume "prettyPrint (Suc n) h opts seen (VRef a) pad = (Ok s, seen') \<and> a \<notin> set seen
               \<and> lookup h a = Some (Obj props) \<and> objKeys opts a props \<noteq> []"
  then have p: "prettyPrint (Suc n) h opts seen (VRef a) pad = (Ok s, seen')"
    and a: "a \<notin> set seen" and l: "lookup h a = Some (Obj props)" and ne: "?keys \<noteq> []"
    by simp_all
  from prettyPrint_object [OF p a l ne] obtain parts where
    1: "map_keys (prettyPrint n h opts) opts ?tk a props pad (length ?keys) 0 ?keys (seen @ [a])
          = (Ok parts, seen @ [a])"
    and 2: "s = expandWhiteSpace opts ?tk pad (''{'' @ newLine ?tk @ concat parts @ padTok ?tk @ ''}'')"
    by blast
  note mk = map_keys_parts [OF prettyPrint_restores 1]
  from mk have len: "length parts = length ?keys" by blast
  have "\<exists>v. parts ! j = indentTok ?tk @ key_text opts (?keys ! j) @ '': '' @ v
      @ eol ?tk (length ?keys) j" if "j < length parts" for j
  proof -
    from that len have "j < length ?keys" by simp
    with mk obtain k v where
      key: "print_key (prettyPrint n h opts) (seen @ [a]) (?keys ! j) = (Ok k, seen @ [a])"
      and part: "parts ! j = indentTok ?tk @ k @ '': ''
          @ apply_transform opts a (PropKey (?keys ! j)) v @ eol ?tk (length ?keys) (0 + j)"
      by blast
    from print_key_text [OF key] part show ?thesis by simp
  qed
  with len 2 show "\<exists>parts. length parts = length ?keys
      \<and> (\<forall>j<length parts. \<exists>v. parts ! j = indentTok ?tk @ key_text opts (?keys ! j)
            @ '': '' @ v @ eol ?tk (length ?keys) j)
      \<and> s = expandWhiteSpace opts ?tk pad (''{'' @ newLine ?tk @ concat parts @ padTok ?tk @ ''}'')"
    by blast
qed

theorem keys_strings_then_symbols_witness:
  "distinct (map fst [(KSym (Symbol 0 ''for enumerable key''), True, VUndefined),
           (KSym (Symbol 1 ''for non-enumerable key''), False, VUndefined),
           (KStr ''name'', True, VNum 1)])
   \<and> objKeys defaultOptions 0 [(KSym (Symbol 0 ''for enumerable key''), True, VUndefined),
           (KSym (Symbol 1 ''for non-enumerable key''), False, VUndefined),
           (KStr ''name'', True, VNum 1)]
       = [KStr ''name'', KSym (Symbol 0 ''for enumerable key'')]
   \<and> prettyPrint 2 store_symbols defaultOptions [] (VRef 0) []
       = (Ok (''{'' @ [LF, tab] @ ''name: 1,'' @ [LF, tab] @ ''Symbol(for enumerable key): undefined''
              @ [LF] @ ''}''), [])"
proof -
  let ?props = "[(KSym (Symbol 0 ''for enumerable key''), True, VUndefined),
           (KSym (Symbol 1 ''for non-enumerable key''), False, VUndefined),
           (KStr ''name'', True, VNum 1)]"
  have 1: "distinct (map fst ?props)" by simp
  have "spec_keys ?props = [KStr ''name'', KSym (Symbol 0 ''for enumerable key'')]"
    by code_simp
  moreover have "filter_opt defaultOptions = None"
    by (simp add: defaultOptions_def)
  ultimately have 2: "objKeys defaultOptions 0 ?props = [KStr ''name'', KSym (Symbol 0 ''for enumerable key'')]"
    using keys_strings_then_symbols [OF 1, of defaultOptions 0] by simp
  have 3: "prettyPrint 2 store_symbols defaultOptions [] (VRef 0) []
       = (Ok (''{'' @ [LF, tab] @ ''name: 1,'' @ [LF, tab] @ ''Symbol(for enumerable key): undefined''
              @ [LF] @ ''}''), [])"
    by code_simp
  show ?thesis
    by (intro conjI) (fact 1 2 3)+
qed

section \<open>The visited list around the members of a composite\<close>

text \<open>
  Claim C5, as the code has it, for hooks that are functions of their arguments (they
  return, and neither call the printer nor touch \<^verbatim>\<open>seen\<close>). Whenever a call of the printer
  returns a text, the visited list after the call is the list at its entry, for every
  input, depth and options. When the input is a non-empty array, or an object with a
  retained key, that is not on the list, the returned text is assembled from the parts
  that the loop over the members gives when it starts with the composite pushed at the
  end of the list, and that loop ends with the list in this state; in particular a
  member that is the composite itself is printed as \<^verbatim>\<open>"[Circular]"\<close>. So the entry is on
  the list while the members are printed and is off it when the call returns.
\<close>

theorem seen_restored_on_return:
  assumes "prettyPrint n h opts seen input pad = (Ok s, seen')"
  shows "seen' = seen
    \<and> (\<forall>a els m. input = VRef a \<and> a \<notin> set seen \<and> lookup h a = Some (Arr els) \<and> els \<noteq> []
          \<and> n = Suc m \<longrightarrow>
          (\<exists>parts.
              map_elements (prettyPrint m h opts) opts (tokens_of opts pad) a pad (length els) 0 els
                (seen @ [a]) = (Ok parts, seen @ [a])
            \<and> s = expandWhiteSpace opts (tokens_of opts pad) pad
                    (''['' @ newLine (tokens_of opts pad) @ concat parts
                       @ padTok (tokens_of opts pad) @ '']'')
            \<and> (\<forall>j<length els. els ! j = VRef a \<longrightarrow>
                  parts ! j = indentTok (tokens_of opts pad)
                    @ apply_transform opts a (PropIdx j) ([dquote] @ ''[Circular]'' @ [dquote])
                    @ eol (tokens_of opts pad) (length els) j)))
    \<and> (\<forall>a props m. input = VRef a \<and> a \<notin> set seen \<and> lookup h a = Some (Obj props)
          \<and> objKeys opts a props \<noteq> [] \<and> n = Suc m \<longrightarrow>
          (\<exists>parts.
              map_keys (prettyPrint m h opts) opts (tokens_of opts pad) a props pad
                (length (objKeys opts a props)) 0 (objKeys opts a props) (seen @ [a])
                  = (Ok parts, seen @ [a])
            \<and> s = expandWhiteSpace opts (tokens_of opts pad) pad
                    (''{'' @ newLine (tokens_of opts pad) @ concat parts
                       @ padTok (tokens_of opts pad) @ ''}'')
            \<and> (\<forall>j<length (objKeys opts a props).
                  get_property props (objKeys opts a props ! j) = VRef a \<longrightarrow>
                  parts ! j = indentTok (tokens_of opts pad) @ key_text opts (objKeys opts a props ! j)
                    @ '': ''
                    @ apply_transform opts a (PropKey (objKeys opts a props ! j))
                        ([dquote] @ ''[Circular]'' @ [dquote])
                    @ eol (tokens_of opts pad) (length (objKeys opts a props)) j)))"
proof (intro conjI allI impI)
  from prettyPrint_restores assms show "seen' = seen"
    by (rule restoresD)
next
  fix a els m
  let ?tk = "tokens_of opts pad"
  assume *: "input = VRef a \<and> a \<notin> set seen \<and> lookup h a = Some (Arr els) \<and> els \<noteq> [] \<and> n = Suc m"
  with assms have p: "prettyPrint (Suc m) h opts seen (VRef a) pad = (Ok s, seen')"
    and a: "a \<notin> set seen" and l: "lookup h a = Some (Arr els)" and ne: "els \<noteq> []"
    by simp_all
  from prettyPrint_array [OF p a l ne] obtain parts where
    1: "map_elements (prettyPrint m h opts) opts ?tk a pad (length els) 0 els (seen @ [a])
          = (Ok parts, seen @ [a])"
    and 2: "s = expandWhiteSpace opts ?tk pad (''['' @ newLine ?tk @ concat parts @ padTok ?tk @ '']'')"
    by blast
  note mp = map_elements_parts [OF prettyPrint_restores 1]
  have 3: "parts ! j = indentTok ?tk
      @ apply_transform opts a (PropIdx j) ([dquote] @ ''[Circular]'' @ [dquote])
      @ eol ?tk (length els) j" if j: "j < length els" and self: "els ! j = VRef a" for j
  proof -
    from mp j self obtain v where
      v: "prettyPrint m h opts (seen @ [a]) (VRef a) (pad @ indent opts) = (Ok v, seen @ [a])"
      and part: "parts ! j = indentTok ?tk @ apply_transform opts a (PropIdx (0 + j)) v
          @ eol ?tk (length els) (0 + j)"
      by metis
    from v obtain k where "m = Suc k" by (cases m) simp_all
    with v have "v = [dquote] @ ''[Circular]'' @ [dquote]"
      by (simp add: prettyPrint_body_def seen_has_def circular_def)
    with part show ?thesis by simp
  qed
  from 1 2 3 show "\<exists>parts.
      map_elements (prettyPrint m h opts) opts ?tk a pad (length els) 0 els (seen @ [a])
        = (Ok parts, seen @ [a])
      \<and> s = expandWhiteSpace opts ?tk pad (''['' @ newLine ?tk @ concat parts @ padTok ?tk @ '']'')
      \<and> (\<forall>j<length els. els ! j = VRef a \<longrightarrow>
            parts ! j = indentTok ?tk
              @ apply_transform opts a (PropIdx j) ([dquote] @ ''[Circular]'' @ [dquote])
              @ eol ?tk (length els) j)"
    by blast
next
  fix a props m
  let ?tk = "tokens_of opts pad"
  let ?keys = "objKeys opts a props"
  assume *: "input = VRef a \<and> a \<notin> set seen \<and> lookup h a = Some (Obj props)
      \<and> objKeys opts a props \<noteq> [] \<and> n = Suc m"
  with assms have p: "prettyPrint (Suc m) h opts seen (VRef a) pad = (Ok s, seen')"
    and a: "a \<notin> set seen" and l: "lookup h a = Some (Obj props)" and ne: "?keys \<noteq> []"
    by simp_all
  from prettyPrint_object [OF p a l ne] obtain parts where
    1: "map_keys (prettyPrint m h opts) opts ?tk a props pad (length ?keys) 0 ?keys (seen @ [a])
          = (Ok parts, seen @ [a])"
    and 2: "s = expandWhiteSpace opts ?tk pad (''{'' @ newLine ?tk @ concat parts @ padTok ?tk @ ''}'')"
    by blast
  note mk = map_keys_parts [OF prettyPrint_restores 1]
  have 3: "parts ! j = indentTok ?tk @ key_text opts (?keys ! j) @ '': ''
      @ apply_transform opts a (PropKey (?keys ! j)) ([dquote] @ ''[Circular]'' @ [dquote])
      @ eol ?tk (length ?keys) j"
    if j: "j < length ?keys" and self: "get_property props (?keys ! j) = VRef a" for j
  proof -
    from mk j self obtain k v where
      key: "print_key (prettyPrint m h opts) (seen @ [a]) (?keys ! j) = (Ok k, seen @ [a])"
      and v: "prettyPrint m h opts (seen @ [a]) (VRef a) (pad @ indent opts) = (Ok v, seen @ [a])"
      and part: "parts ! j = indentTok ?tk @ k @ '': ''
          @ apply_transform opts a (PropKey (?keys ! j)) v @ eol ?tk (length ?keys) (0 + j)"
      by metis
    from v obtain i where "m = Suc i" by (cases m) simp_all
    with v have "v = [dquote] @ ''[Circular]'' @ [dquote]"
      by (simp add: prettyPrint_body_def seen_has_def circular_def)
    with part print_key_text [OF key] show ?thesis by simp
  qed
  from 1 2 3 show "\<exists>parts.
      map_keys (prettyPrint m h opts) opts ?tk a props pad (length ?keys) 0 ?keys (seen @ [a])
        = (Ok parts, seen @ [a])
      \<and> s = expandWhiteSpace opts ?tk pad (''{'' @ newLine ?tk @ concat parts @ padTok ?tk @ ''}'')
      \<and> (\<forall>j<length ?keys. get_property props (?keys ! j) = VRef a \<longrightarrow>
            parts ! j = indentTok ?tk @ key_text opts (?keys ! j) @ '': ''
              @ apply_transform opts a (PropKey (?keys ! j)) ([dquote] @ ''[Circular]'' @ [dquote])
              @ eol ?tk (length ?keys) j)"
    by blast
qed

theorem seen_restored_on_return_witness:
  "prettyPrint 2 store_cyclic defaultOptions [] (VRef 1) []
     = (Ok (''['' @ [LF, tab, dquote] @ ''[Circular]'' @ [dquote, LF] @ '']''), [])
   \<and> (\<exists>parts.
        map_elements (prettyPrint 1 store_cyclic defaultOptions) defaultOptions
          (tokens_of defaultOptions []) 1 [] (length [VRef 1]) 0 [VRef 1] ([] @ [1])
            = (Ok parts, [] @ [1])
        \<and> parts ! 0 = [tab] @ ([dquote] @ ''[Circular]'' @ [dquote]) @ [LF])"
proof -
  let ?t = "''['' @ [LF, tab, dquote] @ ''[Circular]'' @ [dquote, LF] @ '']''"
  let ?tk = "tokens_of defaultOptions []"
  have e: "prettyPrint 2 store_cyclic defaultOptions [] (VRef 1) []
      = (Ok ?t, snd (prettyPrint 2 store_cyclic defaultOptions [] (VRef 1) []))"
    by code_simp
  note t = seen_restored_on_return [OF e]
  from t have 1: "snd (prettyPrint 2 store_cyclic defaultOptions [] (VRef 1) []) = []"
    by (rule conjunct1)
  have h: "VRef 1 = VRef 1 \<and> 1 \<notin> set ([] :: addr list)
      \<and> lookup store_cyclic 1 = Some (Arr [VRef 1]) \<and> [VRef 1] \<noteq> [] \<and> (2 :: nat) = Suc 1"
    by code_simp
  from t h obtain parts where
    m: "map_elements (prettyPrint 1 store_cyclic defaultOptions) defaultOptions ?tk 1 []
          (length [VRef 1]) 0 [VRef 1] ([] @ [1]) = (Ok parts, [] @ [1])"
    and self: "\<forall>j<length [VRef 1]. [VRef 1] ! j = VRef 1 \<longrightarrow>
        parts ! j = indentTok ?tk
          @ apply_transform defaultOptions 1 (PropIdx j) ([dquote] @ ''[Circular]'' @ [dquote])
          @ eol ?tk (length [VRef 1]) j"
    by blast
  from self have "parts ! 0 = indentTok ?tk
      @ apply_transform defaultOptions 1 (PropIdx 0) ([dquote] @ ''[Circular]'' @ [dquote])
      @ eol ?tk (length [VRef 1]) 0"
    by simp
  moreover have "indentTok ?tk = [tab]" and "eol ?tk (length [VRef 1]) 0 = [LF]"
    and "apply_transform defaultOptions 1 (PropIdx 0) x = x" for x
    by (simp_all add: tokens_of_def defaultOptions_def eol_def apply_transform_def)
  ultimately have p0: "parts ! 0 = [tab] @ ([dquote] @ ''[Circular]'' @ [dquote]) @ [LF]"
    by (simp only:)
  from m p0 have 2: "\<exists>parts.
        map_elements (prettyPrint 1 store_cyclic defaultOptions) defaultOptions ?tk 1 []
          (length [VRef 1]) 0 [VRef 1] ([] @ [1]) = (Ok parts, [] @ [1])
        \<and> parts ! 0 = [tab] @ ([dquote] @ ''[Circular]'' @ [dquote]) @ [LF]"
    by (intro exI conjI)
  from e 1 have 3: "prettyPrint 2 store_cyclic defaultOptions [] (VRef 1) [] = (Ok ?t, [])"
    by (simp only:)
  show ?thesis
    by (intro conjI) (fact 2 3)+
qed

text \<open>
  The object \<^verbatim>\<open>{d: new Date(NaN)}\<close> is pushed, \<^verbatim>\<open>toISOString()\<close> throws while its member
  is printed, and the entry stays; the next call on the same object finds it there.
\<close>

theorem seen_left_behind_on_throw:
  "prettyPrint 3 store_invalid_date defaultOptions [] (VRef 0) [] = (Throw RangeError, [0])
   \<and> prettyPrint 3 store_invalid_date defaultOptions [0] (VRef 0) [] = (Ok circular, [0])"
  by code_simp

section \<open>Reading back a quoted text\<close>

lemmas chars = tab_def LF_def CR_def dquote_def squote_def bslash_def dollar_def backtick_def

lemma escape_line_terminators_Cons:
  "escape_line_terminators (c # s) =
     (if c = LF then [bslash, CHR ''n''] else if c = CR then [bslash, CHR ''r''] else [c])
       @ escape_line_terminators s"
  by (simp add: escape_line_terminators_def)

lemma escape_line_terminators_Nil: "escape_line_terminators [] = []"
  by (simp add: escape_line_terminators_def)

lemma replace_single_step:
  "replace_scan [[bslash, squote], [squote]] [bslash, squote] pre (c # cs) =
     (if c = squote then [bslash, squote]
        @ replace_scan [[bslash, squote], [squote]] [bslash, squote] (pre @ [squote]) cs
      else if c = bslash \<and> (\<exists>t. cs = squote # t) then [bslash, squote]
        @ replace_scan [[bslash, squote], [squote]] [bslash, squote] (pre @ [bslash, squote]) (tl cs)
      else c # replace_scan [[bslash, squote], [squote]] [bslash, squote] (pre @ [c]) cs)"
  by (cases cs) (auto simp: chars)

lemma replace_double_step:
  "replace_scan [[dquote]] [bslash, dquote] pre (c # cs) =
     (if c = dquote then [bslash, dquote] @ replace_scan [[dquote]] [bslash, dquote] (pre @ [dquote]) cs
      else c # replace_scan [[dquote]] [bslash, dquote] (pre @ [c]) cs)"
  by (auto simp: chars)

lemma unescape_newline:
  "q = squote \<or> q = dquote \<Longrightarrow>
   unescape q (bslash # CHR ''n'' # x) = map_option ((#) LF) (unescape q x)"
  by (auto simp: escape_value_def numeric_escape_def in_range_def chars)

lemma unescape_return:
  "q = squote \<or> q = dquote \<Longrightarrow>
   unescape q (bslash # CHR ''r'' # x) = map_option ((#) CR) (unescape q x)"
  by (auto simp: escape_value_def numeric_escape_def in_range_def chars)

lemma unescape_squote:
  "unescape squote (bslash # squote # x) = map_option ((#) squote) (unescape squote x)"
  by (simp add: escape_value_def numeric_escape_def in_range_def chars)

lemma unescape_dquote:
  "unescape dquote (bslash # dquote # x) = map_option ((#) dquote) (unescape dquote x)"
  by (simp add: escape_value_def numeric_escape_def in_range_def chars)

lemma unescape_plain:
  "c \<noteq> q \<Longrightarrow> c \<noteq> LF \<Longrightarrow> c \<noteq> CR \<Longrightarrow> c \<noteq> bslash \<Longrightarrow>
   unescape q (c # x) = map_option ((#) c) (unescape q x)"
  by simp

lemma unescape_end: "unescape q [q] = Some []"
  by simp

lemma replace_single_newline:
  "replace_scan [[bslash, squote], [squote]] [bslash, squote] pre (bslash # CHR ''n'' # x)
     = bslash # CHR ''n''
         # replace_scan [[bslash, squote], [squote]] [bslash, squote] (pre @ [bslash, CHR ''n'']) x"
  by (simp add: replace_single_step del: replace_scan.simps) (simp add: chars del: replace_scan.simps)

lemma replace_single_return:
  "replace_scan [[bslash, squote], [squote]] [bslash, squote] pre (bslash # CHR ''r'' # x)
     = bslash # CHR ''r''
         # replace_scan [[bslash, squote], [squote]] [bslash, squote] (pre @ [bslash, CHR ''r'']) x"
  by (simp add: replace_single_step del: replace_scan.simps) (simp add: chars del: replace_scan.simps)

lemma replace_single_quote:
  "replace_scan [[bslash, squote], [squote]] [bslash, squote] pre (squote # x)
     = bslash # squote # replace_scan [[bslash, squote], [squote]] [bslash, squote] (pre @ [squote]) x"
  by (simp add: replace_single_step del: replace_scan.simps)

lemma replace_single_plain:
  "c \<noteq> squote \<Longrightarrow> c \<noteq> bslash \<Longrightarrow>
   replace_scan [[bslash, squote], [squote]] [bslash, squote] pre (c # x)
     = c # replace_scan [[bslash, squote], [squote]] [bslash, squote] (pre @ [c]) x"
  by (simp add: replace_single_step del: replace_scan.simps)

lemma replace_double_newline:
  "replace_scan [[dquote]] [bslash, dquote] pre (bslash # CHR ''n'' # x)
     = bslash # CHR ''n'' # replace_scan [[dquote]] [bslash, dquote] (pre @ [bslash, CHR ''n'']) x"
  by (simp add: replace_double_step del: replace_scan.simps) (simp add: chars del: replace_scan.simps)

lemma replace_double_return:
  "replace_scan [[dquote]] [bslash, dquote] pre (bslash # CHR ''r'' # x)
     = bslash # CHR ''r'' # replace_scan [[dquote]] [bslash, dquote] (pre @ [bslash, CHR ''r'']) x"
  by (simp add: replace_double_step del: replace_scan.simps) (simp add: chars del: replace_scan.simps)

lemma replace_double_quote:
  "replace_scan [[dquote]] [bslash, dquote] pre (dquote # x)
     = bslash # dquote # replace_scan [[dquote]] [bslash, dquote] (pre @ [dquote]) x"
  by (simp add: replace_double_step del: replace_scan.simps)

lemma replace_double_plain:
  "c \<noteq> dquote \<Longrightarrow>
   replace_scan [[dquote]] [bslash, dquote] pre (c # x)
     = c # replace_scan [[dquote]] [bslash, dquote] (pre @ [c]) x"
  by (simp add: replace_double_step del: replace_scan.simps)

lemma unescape_single:
  "bslash \<notin> set s \<Longrightarrow>
   unescape squote (replace_scan [[bslash, squote], [squote]] [bslash, squote] pre
      (escape_line_terminators s) @ [squote]) = Some s"
proof (induction s arbitrary: pre)
  case Nil
  show ?case
    by (simp only: escape_line_terminators_Nil replace_scan.simps append_Nil unescape_end)
next
  case (Cons c s)
  from Cons.prems have c: "c \<noteq> bslash" and s: "bslash \<notin> set s" by auto
  note IH = Cons.IH [OF s]
  consider "c = LF" | "c = CR" "c \<noteq> LF" | "c = squote" "c \<noteq> LF" "c \<noteq> CR"
    | "c \<noteq> LF" "c \<noteq> CR" "c \<noteq> squote" by blast
  then show ?case
  proof cases
    case 1
    with IH [of "pre @ [bslash, CHR ''n'']"] show ?thesis
      by (simp add: escape_line_terminators_Cons replace_single_newline unescape_newline
          del: unescape.simps replace_scan.simps)
  next
    case 2
    with IH [of "pre @ [bslash, CHR ''r'']"] show ?thesis
      by (simp add: escape_line_terminators_Cons replace_single_return unescape_return
          del: unescape.simps replace_scan.simps)
  next
    case 3
    with IH [of "pre @ [squote]"] show ?thesis
      by (simp add: escape_line_terminators_Cons replace_single_quote unescape_squote
          del: unescape.simps replace_scan.simps)
  next
    case 4
    with c IH [of "pre @ [c]"] show ?thesis
      by (simp add: escape_line_terminators_Cons replace_single_plain unescape_plain
          del: unescape.simps replace_scan.simps)
  qed
qed

lemma unescape_double:
  "bslash \<notin> set s \<Longrightarrow>
   unescape dquote (replace_scan [[dquote]] [bslash, dquote] pre (escape_line_terminators s) @ [dquote])
     = Some s"
proof (induction s arbitrary: pre)
  case Nil
  show ?case
    by (simp only: escape_line_terminators_Nil replace_scan.simps append_Nil unescape_end)
next
  case (Cons c s)
  from Cons.prems have c: "c \<noteq> bslash" and s: "bslash \<notin> set s" by auto
  note IH = Cons.IH [OF s]
  consider "c = LF" | "c = CR" "c \<noteq> LF" | "c = dquote" "c \<noteq> LF" "c \<noteq> CR"
    | "c \<noteq> LF" "c \<noteq> CR" "c \<noteq> dquote" by blast
  then show ?case
  proof cases
    case 1
    with IH [of "pre @ [bslash, CHR ''n'']"] show ?thesis
      by (simp add: escape_line_terminators_Cons replace_double_newline unescape_newline
          del: unescape.simps replace_scan.simps)
  next
    case 2
    with IH [of "pre @ [bslash, CHR ''r'']"] show ?thesis
      by (simp add: escape_line_terminators_Cons replace_double_return unescape_return
          del: unescape.simps replace_scan.simps)
  next
    case 3
    with IH [of "pre @ [dquote]"] show ?thesis
      by (simp add: escape_line_terminators_Cons replace_double_quote unescape_dquote
          del: unescape.simps replace_scan.simps)
  next
    case 4
    with c IH [of "pre @ [c]"] show ?thesis
      by (simp add: escape_line_terminators_Cons replace_double_plain unescape_plain
          del: unescape.simps replace_scan.simps)
  qed
qed

text \<open>
  Claim C3, as the code has it. For every text without a backslash, in single-quote
  mode and in double-quote mode, reading the quoted literal that the printer writes
  gives the text back. A backslash of the text is copied as it is, and in single-quote
  mode a quote that already follows a backslash is left alone, so a text with a
  backslash is read back as a different text.
\<close>

theorem quoted_text_reads_back:
  assumes "bslash \<notin> set s"
  shows "read_literal (quote_of opts) (quote_text opts s) = Some s"
proof (cases "singleQuotes opts")
  case True
  with unescape_single [OF assms, of "[]"] show ?thesis
    by (simp add: read_literal_def quote_of_def quote_text_def replace_def)
next
  case False
  with unescape_double [OF assms, of "[]"] show ?thesis
    by (simp add: read_literal_def quote_of_def quote_text_def replace_def)
qed

theorem quoted_text_reads_back_witness:
  "bslash \<notin> set (''a'' @ [squote, dquote, LF, CR] @ ''b'')
   \<and> quote_text defaultOptions (''a'' @ [squote, dquote, LF, CR] @ ''b'')
       = [squote] @ ''a'' @ [bslash, squote, dquote, bslash] @ ''n'' @ [bslash] @ ''rb'' @ [squote]
   \<and> read_literal squote (quote_text defaultOptions (''a'' @ [squote, dquote, LF, CR] @ ''b''))
       = Some (''a'' @ [squote, dquote, LF, CR] @ ''b'')"
proof -
  let ?s = "''a'' @ [squote, dquote, LF, CR] @ ''b''"
  have 1: "bslash \<notin> set ?s" by code_simp
  have 2: "quote_text defaultOptions ?s
       = [squote] @ ''a'' @ [bslash, squote, dquote, bslash] @ ''n'' @ [bslash] @ ''rb'' @ [squote]"
    by code_simp
  have q: "quote_of defaultOptions = squote"
    by (simp add: quote_of_def defaultOptions_def)
  from quoted_text_reads_back [OF 1, of defaultOptions]
  have 3: "read_literal squote (quote_text defaultOptions ?s) = Some ?s"
    unfolding q .
  show ?thesis
    by (intro conjI) (fact 1 2 3)+
qed

text \<open>
  The text \<^verbatim>\<open>c \' d\<close> (with the backslash) is written as \<^verbatim>\<open>'c \' d'\<close>, which reads as
  \<^verbatim>\<open>c ' d\<close>; in double-quote mode a backslash followed by \<^verbatim>\<open>n\<close> is read as a line feed.
\<close>

theorem escaped_quote_does_not_read_back:
  "quote_text defaultOptions (''c '' @ [bslash, squote] @ '' d'')
     = [squote] @ ''c '' @ [bslash, squote] @ '' d'' @ [squote]
   \<and> read_literal squote (quote_text defaultOptions (''c '' @ [bslash, squote] @ '' d''))
       = Some (''c '' @ [squote] @ '' d'')
   \<and> read_literal dquote
        (quote_text (defaultOptions\<lparr>singleQuotes := False\<rparr>) (''c '' @ [bslash] @ ''n d''))
       = Some (''c '' @ [LF] @ '' d'')"
  by code_simp

section \<open>A placeholder inside a text is substituted too\<close>




































end
